theory Spec2Isabelle
  imports Main "HOL-Library.AList" "HOL-Library.Char_ord" "HOL-Library.List_Lexorder"
    "HOL-Library.Multiset" "HOL-Library.Sublist"
begin

section \<open>Python string primitives used by translate.py\<close>

text \<open>
  A Python \<open>str\<close> is modelled as a HOL \<open>string\<close>; a \<open>char\<close> stands for the code point
  with the same number (the code points below 256). \<open>isspace\<close> is Python's
  \<open>str.isspace\<close> on one character of that range: TAB, LF, VT, FF, CR, FS, GS, RS, US,
  SPACE, NEL (0x85) and NBSP (0xA0).
\<close>

definition isspace :: "char \<Rightarrow> bool" where
  "isspace c = (of_char c \<in> {9::nat, 10, 11, 12, 13, 28, 29, 30, 31, 32, 133, 160})"

text \<open>\<open>s.strip()\<close>: drop leading and trailing whitespace.\<close>

definition strip :: "string \<Rightarrow> string" where
  "strip s = rev (dropWhile isspace (rev (dropWhile isspace s)))"

text \<open>\<open>s.split()\<close>: the maximal runs of non-whitespace characters, in order.\<close>

fun split_run :: "string \<Rightarrow> string \<Rightarrow> string list" where
  "split_run cur [] = (if cur = [] then [] else [cur])"
| "split_run cur (c # cs) =
     (if isspace c then (if cur = [] then split_run [] cs else cur # split_run [] cs)
      else split_run (cur @ [c]) cs)"

definition split :: "string \<Rightarrow> string list" where
  "split s = split_run [] s"

text \<open>\<open>s.split(sep)\<close> for a one-character separator: empty fields are kept.\<close>

fun split_on :: "char \<Rightarrow> string \<Rightarrow> string list" where
  "split_on sep [] = [[]]"
| "split_on sep (c # cs) =
     (if c = sep then [] # split_on sep cs
      else (case split_on sep cs of w # ws \<Rightarrow> (c # w) # ws | [] \<Rightarrow> [[c]]))"

text \<open>\<open>sep.join(xs)\<close>.\<close>

fun join :: "string \<Rightarrow> string list \<Rightarrow> string" where
  "join sep [] = []"
| "join sep [x] = x"
| "join sep (x # y # ys) = x @ sep @ join sep (y # ys)"

section \<open>Values\<close>

text \<open>
  The values of the codec: a Python \<open>str\<close> or a Python \<open>list\<close> whose items are again
  such values.
\<close>

datatype pyvalue = Str string | Lst "pyvalue list"

section \<open>tcl_value2python_value\<close>

text \<open>
  The body of the nested function \<open>parse_list(s, start)\<close> is the loop
  \<open>while i < len(s)\<close> over the locals \<open>result\<close>, \<open>current\<close> and \<open>i\<close>;
  \<open>parse_list_loop s i result current\<close> is that loop from one state on, and returns
  the pair the Python function returns. The recursive call of the source for an opening
  brace is the loop started at \<open>i + 1\<close> with fresh locals; on its return the source
  sets \<open>i = new_i\<close> and then runs the \<open>i += 1\<close> that ends every iteration.
  This is the loop without the interpreter's bound on nested calls: the value the source
  returns whenever it returns. \<open>parse_list_depth\<close> below carries the bound.
\<close>

definition flush :: "pyvalue list \<Rightarrow> string \<Rightarrow> pyvalue list" where
  "flush result current = (if current \<noteq> [] then result @ [Str (strip current)] else result)"

function (domintros) parse_list_loop ::
  "string \<Rightarrow> nat \<Rightarrow> pyvalue list \<Rightarrow> string \<Rightarrow> pyvalue list \<times> nat" where
  "parse_list_loop s i result current =
     (if i < length s then
        (if s ! i = CHR ''{'' then
           (case parse_list_loop s (i + 1) [] [] of
              (nested_list, new_i) \<Rightarrow>
                parse_list_loop s (new_i + 1) (flush result current @ [Lst nested_list]) [])
         else if s ! i = CHR ''}'' then (flush result current, i + 1)
         else if s ! i = CHR '' '' \<and> current \<noteq> [] then
           parse_list_loop s (i + 1) (result @ [Str (strip current)]) []
         else parse_list_loop s (i + 1) result (current @ [s ! i]))
      else (flush result current, i))"
  by pat_completeness auto

lemma parse_list_loop_index:
  "parse_list_loop_dom (s, i, result, current) \<Longrightarrow>
     i \<le> snd (parse_list_loop s i result current)"
proof (induction s i result current rule: parse_list_loop.pinduct)
  case (1 s i result current)
  note unfold = parse_list_loop.psimps[OF 1(1)]
  show ?case
  proof (cases "i < length s")
    case False
    show ?thesis by (subst unfold) (simp only: if_not_P[OF False] snd_conv order_refl)
  next
    case True
    note lt = True
    show ?thesis
    proof (cases "s ! i = CHR ''{''")
      case True
      obtain nested_list new_i where
        nested: "parse_list_loop s (i + 1) [] [] = (nested_list, new_i)"
        by (cases "parse_list_loop s (i + 1) [] []")
      from 1(2)[OF lt True] nested have "i + 1 \<le> new_i" by simp
      moreover from 1(3)[OF lt True nested[symmetric]]
      have "new_i + 1 \<le> snd (parse_list_loop s (new_i + 1)
              (flush result current @ [Lst nested_list]) [])" .
      moreover have "parse_list_loop s i result current =
          parse_list_loop s (new_i + 1) (flush result current @ [Lst nested_list]) []"
        by (subst unfold) (simp only: if_P[OF lt] if_P[OF True] nested prod.case)
      ultimately show ?thesis by simp
    next
      case False
      note nopen = False
      show ?thesis
      proof (cases "s ! i = CHR ''}''")
        case True
        have "parse_list_loop s i result current = (flush result current, i + 1)"
          by (subst unfold) (simp only: if_P[OF lt] if_not_P[OF nopen] if_P[OF True])
        then show ?thesis by simp
      next
        case False
        note nclose = False
        show ?thesis
        proof (cases "s ! i = CHR '' '' \<and> current \<noteq> []")
          case True
          have "parse_list_loop s i result current =
              parse_list_loop s (i + 1) (result @ [Str (strip current)]) []"
            by (subst unfold)
              (simp only: if_P[OF lt] if_not_P[OF nopen] if_not_P[OF nclose] if_P[OF True])
          with 1(4)[OF lt nopen nclose True] show ?thesis by simp
        next
          case False
          have "parse_list_loop s i result current =
              parse_list_loop s (i + 1) result (current @ [s ! i])"
            by (subst unfold)
              (simp only: if_P[OF lt] if_not_P[OF nopen] if_not_P[OF nclose] if_not_P[OF False])
          with 1(5)[OF lt nopen nclose False] show ?thesis by simp
        qed
      qed
    qed
  qed
qed

termination parse_list_loop
  apply (relation "measure (\<lambda>(s, i, result, current). length s - i)")
      apply simp
     apply simp
    defer
    apply simp
   apply simp
  subgoal premises prems
    using parse_list_loop_index[OF prems(4)] prems(1,2) unfolding prems(3)[symmetric] by simp
  done

declare parse_list_loop.simps [simp del]

definition parse_list :: "string \<Rightarrow> nat \<Rightarrow> pyvalue list \<times> nat" where
  "parse_list s start = parse_list_loop s start [] []"

text \<open>
  \<open>tcl_value2python_value\<close> on a \<open>str\<close> argument (the tuple branch of the source
  converts an already structured value and reads no text).
\<close>

definition tcl_value2python_value :: "string \<Rightarrow> pyvalue" where
  "tcl_value2python_value value0 =
     (let v = strip value0 in
      if v = [] then Str []
      else if CHR ''{'' \<notin> set v \<and> CHR ''}'' \<notin> set v then Str v
      else if hd v = CHR ''{'' \<and> last v = CHR ''}'' then Lst (fst (parse_list v 1))
      else Lst (fst (parse_list v 0)))"

text \<open>
  Every opening brace makes \<open>parse_list\<close> call itself, and the interpreter allows
  only so many nested calls. \<open>parse_list_depth frames\<close> is the same loop with the number
  of calls of \<open>parse_list\<close> the interpreter still allows, the running one included:
  \<open>None\<close> is its \<open>RecursionError\<close>, which neither \<open>parse_list\<close> nor
  \<open>tcl_value2python_value\<close> catches.
\<close>

function (domintros) parse_list_depth ::
  "nat \<Rightarrow> string \<Rightarrow> nat \<Rightarrow> pyvalue list \<Rightarrow> string \<Rightarrow> (pyvalue list \<times> nat) option" where
  "parse_list_depth 0 s i result current = None"
| "parse_list_depth (Suc frames) s i result current =
     (if i < length s then
        (if s ! i = CHR ''{'' then
           (case parse_list_depth frames s (i + 1) [] [] of
              None \<Rightarrow> None
            | Some (nested_list, new_i) \<Rightarrow>
                parse_list_depth (Suc frames) s (new_i + 1)
                  (flush result current @ [Lst nested_list]) [])
         else if s ! i = CHR ''}'' then Some (flush result current, i + 1)
         else if s ! i = CHR '' '' \<and> current \<noteq> [] then
           parse_list_depth (Suc frames) s (i + 1) (result @ [Str (strip current)]) []
         else parse_list_depth (Suc frames) s (i + 1) result (current @ [s ! i]))
      else Some (flush result current, i))"
  by pat_completeness auto

lemma parse_list_depth_index:
  "parse_list_depth_dom (d, s, i, result, current) \<Longrightarrow>
     parse_list_depth d s i result current = Some (res, j) \<Longrightarrow> i \<le> j"
proof (induction d s i result current arbitrary: res j rule: parse_list_depth.pinduct)
  case (1 s i result current)
  then show ?case by (simp add: parse_list_depth.psimps)
next
  case (2 frames s i result current)
  note unfold = parse_list_depth.psimps(2)[OF 2(1)]
  note run = 2(6)
  show ?case
  proof (cases "i < length s")
    case False
    from run have "j = i" by (subst (asm) unfold) (simp only: if_not_P[OF False] option.inject prod.inject)
    then show ?thesis by simp
  next
    case lt: True
    show ?thesis
    proof (cases "s ! i = CHR ''{''")
      case True
      from run have r: "(case parse_list_depth frames s (i + 1) [] [] of
              None \<Rightarrow> None
            | Some (nested_list, new_i) \<Rightarrow>
                parse_list_depth (Suc frames) s (new_i + 1)
                  (flush result current @ [Lst nested_list]) []) = Some (res, j)"
        by (subst (asm) unfold) (simp only: if_P[OF lt] if_P[OF True])
      then obtain nested_list new_i where
        nested: "parse_list_depth frames s (i + 1) [] [] = Some (nested_list, new_i)"
        by (cases "parse_list_depth frames s (i + 1) [] []") auto
      with r have cont: "parse_list_depth (Suc frames) s (new_i + 1)
                  (flush result current @ [Lst nested_list]) [] = Some (res, j)" by simp
      from 2(2)[OF lt True nested] have "i + 1 \<le> new_i" .
      moreover from 2(3)[OF lt True nested refl cont] have "new_i + 1 \<le> j" .
      ultimately show ?thesis by simp
    next
      case nopen: False
      show ?thesis
      proof (cases "s ! i = CHR ''}''")
        case True
        from run have "j = i + 1"
          by (subst (asm) unfold)
             (simp only: if_P[OF lt] if_not_P[OF nopen] if_P[OF True] option.inject prod.inject)
        then show ?thesis by simp
      next
        case nclose: False
        show ?thesis
        proof (cases "s ! i = CHR '' '' \<and> current \<noteq> []")
          case True
          from run have "parse_list_depth (Suc frames) s (i + 1)
              (result @ [Str (strip current)]) [] = Some (res, j)"
            by (subst (asm) unfold)
               (simp only: if_P[OF lt] if_not_P[OF nopen] if_not_P[OF nclose] if_P[OF True])
          from 2(4)[OF lt nopen nclose True this] show ?thesis by simp
        next
          case False
          from run have "parse_list_depth (Suc frames) s (i + 1) result (current @ [s ! i])
              = Some (res, j)"
            by (subst (asm) unfold)
               (simp only: if_P[OF lt] if_not_P[OF nopen] if_not_P[OF nclose] if_not_P[OF False])
          from 2(5)[OF lt nopen nclose False this] show ?thesis by simp
        qed
      qed
    qed
  qed
qed

termination parse_list_depth
  apply (relation "measures [\<lambda>(d, s, i, result, current). d,
      \<lambda>(d, s, i, result, current). length s - i]")
      apply simp
     apply simp
    defer
    apply simp
   apply simp
  subgoal premises prems
    using prems(1) parse_list_depth_index[OF prems(5)
        trans[OF prems(3) arg_cong[where f = Some, OF prems(4)[symmetric]]]]
    by simp
  done

declare parse_list_depth.simps [simp del]

definition tcl_value2python_value_depth :: "nat \<Rightarrow> string \<Rightarrow> pyvalue option" where
  "tcl_value2python_value_depth frames value0 =
     (let v = strip value0 in
      if v = [] then Some (Str [])
      else if CHR ''{'' \<notin> set v \<and> CHR ''}'' \<notin> set v then Some (Str v)
      else if hd v = CHR ''{'' \<and> last v = CHR ''}''
        then map_option (\<lambda>r. Lst (fst r)) (parse_list_depth frames v 1 [] [])
      else map_option (\<lambda>r. Lst (fst r)) (parse_list_depth frames v 0 [] []))"

text \<open>The number of opening braces of \<open>s\<close> from position \<open>i\<close> up to position \<open>j\<close>.\<close>

definition opens :: "string \<Rightarrow> nat \<Rightarrow> nat \<Rightarrow> nat" where
  "opens s i j = length (filter (\<lambda>c. c = CHR ''{'') (take (j - i) (drop i s)))"

text \<open>
  Texts in the form the parser is written for: a list of words and brace groups with
  one space between two elements, a word being a non-empty text without braces and
  whitespace, where every list, also the one inside a group, is empty or ends with a
  word. \<open>texts\<close> writes such a list, \<open>value_of\<close> is the Python value it stands for.
\<close>

datatype elem = Word string | Group "elem list"

definition word :: "string \<Rightarrow> bool" where
  "word w = (w \<noteq> [] \<and> list_all (\<lambda>c. c \<noteq> CHR ''{'' \<and> c \<noteq> CHR ''}'' \<and> \<not> isspace c) w)"

fun texts :: "elem list \<Rightarrow> string" where
  "texts [] = []"
| "texts [Word w] = w"
| "texts [Group g] = ''{'' @ texts g @ ''}''"
| "texts (Word w # e # es) = w @ '' '' @ texts (e # es)"
| "texts (Group g # e # es) = ''{'' @ texts g @ ''} '' @ texts (e # es)"

fun well_formed :: "elem list \<Rightarrow> bool" where
  "well_formed [] = True"
| "well_formed [Word w] = word w"
| "well_formed [Group g] = False"
| "well_formed (Word w # e # es) = (word w \<and> well_formed (e # es))"
| "well_formed (Group g # e # es) = (well_formed g \<and> well_formed (e # es))"

fun value_of :: "elem \<Rightarrow> pyvalue" where
  "value_of (Word w) = Str w"
| "value_of (Group g) = Lst (map value_of g)"

fun starts_word :: "elem list \<Rightarrow> bool" where
  "starts_word (Group g # es) = False"
| "starts_word es = True"

section \<open>python_value2tcl_value\<close>

text \<open>
  The branch for a \<open>str\<close> holding a brace: one pass over the characters with the
  locals \<open>parts\<close>, \<open>current\<close> and \<open>brace_level\<close> (a Python \<open>int\<close>, which an
  unmatched closing brace makes negative). The \<open>continue\<close> of the source skips the
  final \<open>current += char\<close> only when a closing brace brings the level to zero.
\<close>

definition list_cmd :: "string list \<Rightarrow> string" where
  "list_cmd elements = ''[list '' @ join '' '' elements @ '']''"

fun brace_step :: "string list \<times> string \<times> int \<Rightarrow> char \<Rightarrow> string list \<times> string \<times> int" where
  "brace_step (parts, current, brace_level) ch =
     (if ch = CHR ''{'' then
        (if brace_level = 0 \<and> current \<noteq> []
         then (parts @ split (strip current), [ch], brace_level + 1)
         else (parts, current @ [ch], brace_level + 1))
      else if ch = CHR ''}'' then
        (if brace_level - 1 = 0 then
           (let inner_content = strip current in
            ((if inner_content \<noteq> [] then parts @ [list_cmd (split inner_content)] else parts),
             [], brace_level - 1))
         else (parts, current @ [ch], brace_level - 1))
      else (parts, current @ [ch], brace_level))"

definition brace_string :: "string \<Rightarrow> string" where
  "brace_string v =
     (case foldl brace_step ([], [], 0) v of
        (parts, current, brace_level) \<Rightarrow>
          list_cmd (if strip current \<noteq> [] then parts @ split (strip current) else parts))"

definition empty_repr :: string where
  "empty_repr = [CHR 0x22, CHR 0x22]"

fun python_value2tcl_value :: "pyvalue \<Rightarrow> string"
  and list_element :: "pyvalue \<Rightarrow> string" where
  "python_value2tcl_value (Str s) =
     (if s = [] then empty_repr
      else if CHR ''{'' \<in> set s \<or> CHR ''}'' \<in> set s then brace_string s
      else if CHR '' '' \<in> set s then ''[list '' @ s @ '']''
      else s)"
| "python_value2tcl_value (Lst items) =
     (if items = [] then empty_repr else list_cmd (map list_element items))"
| "list_element (Lst items) = python_value2tcl_value (Lst items)"
| "list_element (Str item) =
     (if CHR '' '' \<in> set item \<or> CHR ''{'' \<in> set item \<or> CHR ''}'' \<in> set item
      then ''{'' @ item @ ''}''
      else if item = [] then empty_repr
      else item)"

section \<open>Trees\<close>

text \<open>
  A configuration tree is a Python \<open>dict\<close> from \<open>str\<close> keys to entries that are either
  a nested \<open>dict\<close> or anything else (a terminal value). A \<open>dict\<close> keeps its keys in
  insertion order and holds each key once; it is modelled as an association list.
  \<open>key in d\<close> is \<open>map_of d key \<noteq> None\<close>, \<open>d[key]\<close> is \<open>map_of d key\<close>, and the
  assignment \<open>d[key] = v\<close> is \<open>AList.update key v d\<close>: the entry is replaced where it
  stands, or appended when the key is new.
\<close>

datatype 'a node = Leaf 'a | Tree "(string \<times> 'a node) list"

type_synonym 'a dict = "(string \<times> 'a node) list"

datatype py_error = IndexError | AttributeError | TypeError

section \<open>merge_dicts\<close>

text \<open>
  \<open>merge_dicts result dict2 overwrite\<close> is the loop \<open>for key, value in dict2.items()\<close>
  over the local \<open>result\<close>, which starts as \<open>dict1.copy()\<close>; so
  \<open>merge_dicts dict1 dict2 overwrite\<close> is the Python function. The two equations for a
  non-empty \<open>dict2\<close> are the two outcomes of \<open>isinstance(value, dict)\<close>.
\<close>

fun merge_dicts :: "'a dict \<Rightarrow> 'a dict \<Rightarrow> bool \<Rightarrow> 'a dict" where
  "merge_dicts result [] overwrite = result"
| "merge_dicts result ((key, Tree value) # rest) overwrite =
     (case map_of result key of
        Some (Tree sub) \<Rightarrow>
          merge_dicts (AList.update key (Tree (merge_dicts sub value overwrite)) result)
            rest overwrite
      | Some (Leaf x) \<Rightarrow>
          (if overwrite then merge_dicts (AList.update key (Tree value) result) rest overwrite
           else merge_dicts result rest overwrite)
      | None \<Rightarrow> merge_dicts (AList.update key (Tree value) result) rest overwrite)"
| "merge_dicts result ((key, Leaf value) # rest) overwrite =
     (if map_of result key = None \<or> overwrite
      then merge_dicts (AList.update key (Leaf value) result) rest overwrite
      else merge_dicts result rest overwrite)"

section \<open>merge_dicts on a store of dictionary objects\<close>

text \<open>
  Which objects \<open>merge_dicts\<close> writes to is a question about Python's objects, so here
  the dictionaries are objects in a store: the store lists the dictionary objects
  allocated so far, the address of an object is its index, and an entry of a dictionary
  is a terminal value or the address of a dictionary. Two entries may hold the same
  address, and \<open>dict1\<close> and \<open>dict2\<close> may share objects.
\<close>

datatype 'a entry = Val 'a | Ref nat

type_synonym 'a obj = "(string \<times> 'a entry) list"
type_synonym 'a store = "'a obj list"

text \<open>
  \<open>dict1.copy()\<close> allocates the object \<open>result\<close> with the entries of \<open>dict1\<close>;
  the loop assigns to entries of \<open>result\<close>, and the recursive call allocates its own
  result. The loop runs over the entries \<open>dict2\<close> has when it starts. The first
  argument bounds the depth of the recursion, as the interpreter does: \<open>None\<close> is
  its \<open>RecursionError\<close> (or an address outside the store, which Python does not
  have).
\<close>

fun merge_dicts_store :: "nat \<Rightarrow> 'a store \<Rightarrow> nat \<Rightarrow> nat \<Rightarrow> bool \<Rightarrow> ('a store \<times> nat) option"
  and merge_items_store :: "nat \<Rightarrow> 'a store \<Rightarrow> nat \<Rightarrow> 'a obj \<Rightarrow> bool \<Rightarrow> ('a store \<times> nat) option"
  where
  "merge_dicts_store 0 st dict1 dict2 overwrite = None"
| "merge_dicts_store (Suc depth) st dict1 dict2 overwrite =
     (if dict1 < length st \<and> dict2 < length st
      then merge_items_store depth (st @ [st ! dict1]) (length st) (st ! dict2) overwrite
      else None)"
| "merge_items_store depth st result [] overwrite = Some (st, result)"
| "merge_items_store depth st result ((key, Ref v) # rest) overwrite =
     (case map_of (st ! result) key of
        Some (Ref sub) \<Rightarrow>
          (case merge_dicts_store depth st sub v overwrite of
             None \<Rightarrow> None
           | Some (st', merged) \<Rightarrow>
               merge_items_store depth
                 (st'[result := AList.update key (Ref merged) (st' ! result)]) result rest overwrite)
      | Some (Val x) \<Rightarrow>
          (if overwrite
           then merge_items_store depth
                  (st[result := AList.update key (Ref v) (st ! result)]) result rest overwrite
           else merge_items_store depth st result rest overwrite)
      | None \<Rightarrow>
          merge_items_store depth
            (st[result := AList.update key (Ref v) (st ! result)]) result rest overwrite)"
| "merge_items_store depth st result ((key, Val v) # rest) overwrite =
     (if map_of (st ! result) key = None \<or> overwrite
      then merge_items_store depth
             (st[result := AList.update key (Val v) (st ! result)]) result rest overwrite
      else merge_items_store depth st result rest overwrite)"

text \<open>
  \<open>repr X st a t\<close>: in the store \<open>st\<close>, the object at address \<open>a\<close> is the
  dictionary \<open>t\<close>, and no object on the way is at an address in \<open>X\<close>.
\<close>

fun repr :: "nat set \<Rightarrow> 'a store \<Rightarrow> nat \<Rightarrow> 'a dict \<Rightarrow> bool"
  and repr_items :: "nat set \<Rightarrow> 'a store \<Rightarrow> 'a obj \<Rightarrow> 'a dict \<Rightarrow> bool" where
  "repr X st a t = (a \<notin> X \<and> a < length st \<and> repr_items X st (st ! a) t)"
| "repr_items X st [] [] = True"
| "repr_items X st ((k, Val x) # es) ((k', Leaf y) # t) =
     (k = k' \<and> x = y \<and> repr_items X st es t)"
| "repr_items X st ((k, Ref b) # es) ((k', Tree s) # t) =
     (k = k' \<and> repr X st b s \<and> repr_items X st es t)"
| "repr_items X st es t = False"

fun repr_entry :: "nat set \<Rightarrow> 'a store \<Rightarrow> 'a entry \<Rightarrow> 'a node \<Rightarrow> bool" where
  "repr_entry X st (Val x) (Leaf y) = (x = y)"
| "repr_entry X st (Ref b) (Tree s) = repr X st b s"
| "repr_entry X st e n = False"

text \<open>The depth of nesting of a dictionary.\<close>

fun height :: "'a dict \<Rightarrow> nat" where
  "height [] = 0"
| "height ((k, Leaf x) # t) = height t"
| "height ((k, Tree s) # t) = max (Suc (height s)) (height t)"

section \<open>set_nested_dict\<close>

text \<open>
  The source walks \<open>keys[:-1]\<close> with \<open>current = current.setdefault(key, {})\<close> and ends
  with \<open>current[keys[-1]] = value\<close>, mutating the dictionary in place. The model returns
  the updated dictionary, or the exception: \<open>keys[-1]\<close> of an empty list is an
  \<open>IndexError\<close>; when \<open>setdefault\<close> returns a terminal value, the next
  \<open>setdefault\<close> on it is an \<open>AttributeError\<close> and, when no intermediate key is left,
  the final item assignment on it is a \<open>TypeError\<close>. In both cases nothing has been
  written before the exception.
\<close>

definition store_sub :: "'a dict \<Rightarrow> string \<Rightarrow> py_error + 'a dict \<Rightarrow> py_error + 'a dict" where
  "store_sub d key r = (case r of Inl e \<Rightarrow> Inl e | Inr sub \<Rightarrow> Inr (AList.update key (Tree sub) d))"

fun set_nested_dict :: "'a dict \<Rightarrow> string list \<Rightarrow> 'a node \<Rightarrow> py_error + 'a dict" where
  "set_nested_dict d [] value = Inl IndexError"
| "set_nested_dict d [key] value = Inr (AList.update key value d)"
| "set_nested_dict d (key # key' # keys) value =
     (case map_of d key of
        None \<Rightarrow> store_sub d key (set_nested_dict [] (key' # keys) value)
      | Some (Tree sub) \<Rightarrow> store_sub d key (set_nested_dict sub (key' # keys) value)
      | Some (Leaf x) \<Rightarrow> Inl (if keys = [] then TypeError else AttributeError))"

text \<open>The entry a key path leads to, if any.\<close>

fun lookup_path :: "'a dict \<Rightarrow> string list \<Rightarrow> 'a node option" where
  "lookup_path d [] = Some (Tree d)"
| "lookup_path d [key] = map_of d key"
| "lookup_path d (key # key' # keys) =
     (case map_of d key of Some (Tree sub) \<Rightarrow> lookup_path sub (key' # keys) | _ \<Rightarrow> None)"

text \<open>
  A path is blocked when one of its proper, non-empty prefixes leads to a terminal value:
  an intermediate segment of the path then holds a value that is not a dictionary.
\<close>

fun is_terminal :: "'a node option \<Rightarrow> bool" where
  "is_terminal (Some (Leaf x)) = True"
| "is_terminal _ = False"

definition terminal_on_path :: "'a dict \<Rightarrow> string list \<Rightarrow> bool" where
  "terminal_on_path d keys =
     list_ex (\<lambda>p. p \<noteq> [] \<and> p \<noteq> keys \<and> is_terminal (lookup_path d p)) (prefixes keys)"

section \<open>dict_to_tcl\<close>

text \<open>
  \<open>process_dict\<close> is the nested function of \<open>dict_to_tcl\<close> (\<open>pfx\<close> is its
  parameter \<open>prefix\<close>); \<open>process_items\<close> is its
  loop, which appends to \<open>lines\<close>. \<open>sorted\<close> on a list of \<open>str\<close> is \<open>sort\<close> in the
  lexicographic order of the code points.
\<close>

definition var_name :: "string \<Rightarrow> string \<Rightarrow> string" where
  "var_name pfx key = (if pfx \<noteq> [] then pfx @ '','' @ key else key)"

definition array_name :: "string \<Rightarrow> string" where
  "array_name name =
     (if CHR '','' \<in> set name then
        (case split_on CHR '','' name of
           p # parts \<Rightarrow> p @ ''('' @ join '','' parts @ '')''
         | [] \<Rightarrow> name)
      else name)"

definition set_line :: "string \<Rightarrow> string \<Rightarrow> pyvalue \<Rightarrow> string" where
  "set_line pfx key value =
     ''set '' @ array_name (var_name pfx key) @ '' '' @ python_value2tcl_value value"

fun process_dict :: "pyvalue dict \<Rightarrow> string \<Rightarrow> string list"
  and process_items :: "pyvalue dict \<Rightarrow> string \<Rightarrow> string list" where
  "process_dict d pfx = sort (process_items d pfx)"
| "process_items [] pfx = []"
| "process_items ((key, Tree value) # rest) pfx =
     process_dict value (var_name pfx key) @ process_items rest pfx"
| "process_items ((key, Leaf value) # rest) pfx =
     set_line pfx key value # process_items rest pfx"

text \<open>
  What \<open>dict_to_tcl\<close> writes, as the list of its sections, each with its \<open>set\<close>
  statements in the order written (the comment lines of the header and between the
  sections are left out). Without \<open>with_source\<close> there is one unnamed section; with it,
  one section per entry of \<open>data\<close>, and \<open>process_dict\<close> on an entry that is not a
  \<open>dict\<close> raises \<open>AttributeError\<close> (no \<open>items\<close>), which \<open>dict_to_tcl\<close> re-raises.
\<close>

fun source_sections :: "pyvalue dict \<Rightarrow> py_error + (string option \<times> string list) list" where
  "source_sections [] = Inr []"
| "source_sections ((source_name, Tree source_dict) # rest) =
     (case source_sections rest of
        Inl e \<Rightarrow> Inl e
      | Inr secs \<Rightarrow> Inr ((Some source_name, process_dict source_dict []) # secs))"
| "source_sections ((source_name, Leaf v) # rest) = Inl AttributeError"

definition dict_to_tcl :: "pyvalue dict \<Rightarrow> bool \<Rightarrow> py_error + (string option \<times> string list) list" where
  "dict_to_tcl data with_source =
     (if with_source then source_sections data else Inr [(None, process_dict data [])])"

text \<open>
  Two dictionaries with the same entries in another insertion order, at any depth of
  nesting.
\<close>

inductive reorder :: "'a dict \<Rightarrow> 'a dict \<Rightarrow> bool" where
  reorder_nil: "reorder [] []"
| reorder_leaf: "reorder d d' \<Longrightarrow> reorder ((k, Leaf v) # d) ((k, Leaf v) # d')"
| reorder_tree: "reorder s s' \<Longrightarrow> reorder d d' \<Longrightarrow> reorder ((k, Tree s) # d) ((k, Tree s') # d')"
| reorder_swap: "reorder (x # y # d) (y # x # d)"
| reorder_trans: "reorder d d' \<Longrightarrow> reorder d' d'' \<Longrightarrow> reorder d d''"

code_pred reorder .

section \<open>process_config_inputs\<close>

text \<open>
  An input is a \<open>dict\<close>, a \<open>str\<close> (a file path) or something else. Reading a file
  (the dispatch on its extension, the Tcl interpreter and the reader of \<open>.yaml\<close>
  files) is the parameter \<open>load\<close>: \<open>None\<close> when the input is skipped, that is for
  an unsupported extension and when the reader raises. The function returns
  \<open>(merged_dict, source_dicts)\<close>; writing \<open>output_file\<close> changes neither.
\<close>

datatype 'a input_item = DictInput "'a dict" | PathInput string | OtherInput

definition dict_source_name :: "nat \<Rightarrow> nat \<Rightarrow> string" where
  "dict_source_name i n =
     (let source_name = ''Appendix info apply'';
          source_name = (if i = 0 then ''Basic Appendix info'' else source_name);
          source_name = (if int i = int n - 1 then ''Fixed Appendix info'' else source_name)
      in source_name)"

fun read_input :: "(string \<Rightarrow> 'a dict option) \<Rightarrow> nat \<Rightarrow> nat \<Rightarrow> 'a input_item \<Rightarrow>
    (string \<times> 'a dict) option" where
  "read_input load n i (DictInput d) = Some (dict_source_name i n, d)"
| "read_input load n i (PathInput p) =
     (case load p of None \<Rightarrow> None | Some d \<Rightarrow> Some (p, d))"
| "read_input load n i OtherInput = None"

fun inputs_loop :: "(string \<Rightarrow> 'a dict option) \<Rightarrow> nat \<Rightarrow> nat \<Rightarrow> 'a input_item list \<Rightarrow>
    (string \<times> 'a dict) list \<Rightarrow> 'a dict \<Rightarrow> 'a dict \<times> (string \<times> 'a dict) list" where
  "inputs_loop load n i [] source_dicts merged_dict = (merged_dict, source_dicts)"
| "inputs_loop load n i (input_item # rest) source_dicts merged_dict =
     (case read_input load n i input_item of
        None \<Rightarrow> inputs_loop load n (i + 1) rest source_dicts merged_dict
      | Some (source_name, current_dict) \<Rightarrow>
          inputs_loop load n (i + 1) rest
            (AList.update source_name current_dict source_dicts)
            (if merged_dict \<noteq> [] then merge_dicts merged_dict current_dict True
             else current_dict))"

definition process_config_inputs :: "(string \<Rightarrow> 'a dict option) \<Rightarrow> 'a input_item list \<Rightarrow>
    'a dict \<times> (string \<times> 'a dict) list" where
  "process_config_inputs load inputs = inputs_loop load (length inputs) 0 inputs [] []"

section \<open>Properties of the value codec\<close>

lemma set_strip: "set (strip s) \<subseteq> set s"
proof -
  have "set (strip s) \<subseteq> set (dropWhile isspace s)"
    unfolding strip_def using set_dropWhileD[of _ isspace "rev (dropWhile isspace s)"] by auto
  also have "\<dots> \<subseteq> set s" using set_dropWhileD[of _ isspace s] by auto
  finally show ?thesis .
qed

lemma strip_id: "s \<noteq> [] \<Longrightarrow> \<not> isspace (hd s) \<Longrightarrow> \<not> isspace (last s) \<Longrightarrow> strip s = s"
proof -
  assume ne: "s \<noteq> []" and h: "\<not> isspace (hd s)" and l: "\<not> isspace (last s)"
  from ne h have a: "dropWhile isspace s = s" by (cases s) auto
  from ne l have "dropWhile isspace (rev s) = rev s" by (cases "rev s") (auto simp: last_rev[symmetric] hd_rev)
  with a show ?thesis by (simp add: strip_def)
qed

lemma parse_list_loop_dom_all: "parse_list_loop_dom (s, i, result, current)"
  by (induction s i result current rule: parse_list_loop.induct)
     (rule parse_list_loop.domintros; simp)

lemma parse_list_loop_close:
  "i < length s \<Longrightarrow> s ! i = CHR ''}'' \<Longrightarrow>
     parse_list_loop s i result current = (flush result current, i + 1)"
  by (subst parse_list_loop.simps) simp

lemma strip_brace_free:
  "CHR ''{'' \<notin> set s \<Longrightarrow> CHR ''}'' \<notin> set s \<Longrightarrow>
     CHR ''{'' \<notin> set (strip s) \<and> CHR ''}'' \<notin> set (strip s)"
  using set_strip[of s] by auto

lemma parse_brace_free: "CHR ''{'' \<notin> set s \<Longrightarrow> CHR ''}'' \<notin> set s \<Longrightarrow>
    tcl_value2python_value s = Str (strip s)"
  using strip_brace_free[of s] by (simp add: tcl_value2python_value_def Let_def)

lemma parse_Str_brace_free:
  "tcl_value2python_value x = Str y \<Longrightarrow> CHR ''{'' \<notin> set y \<and> CHR ''}'' \<notin> set y"
  by (auto simp: tcl_value2python_value_def Let_def split: if_splits)

lemma isspace_simps [simp]:
  "\<not> isspace CHR ''[''" "\<not> isspace CHR '']''" "\<not> isspace (CHR 0x22)" "isspace CHR '' ''"
  by (simp_all add: isspace_def)

text \<open>
  C8. \<open>python_value2tcl_value\<close> gives the same two-character text, two double quotes,
  for the empty string and for the empty list.
\<close>

theorem empty_values_collapse:
  "python_value2tcl_value (Str []) = [CHR 0x22, CHR 0x22] \<and>
   python_value2tcl_value (Lst []) = [CHR 0x22, CHR 0x22]"
  by (simp add: empty_repr_def)

text \<open>
  C2, as the code has it. For a string \<open>s\<close> without braces,
  \<open>tcl_value2python_value\<close> returns the string with its surrounding whitespace
  stripped and otherwise unchanged (no splitting), and \<open>python_value2tcl_value\<close> of the
  string \<open>s\<close> is two double quotes when \<open>s\<close> is empty, \<open>[list s]\<close> when \<open>s\<close> holds a
  space character, and \<open>s\<close> itself otherwise.
\<close>

theorem brace_free_scalar_codec:
  assumes "CHR ''{'' \<notin> set s" and "CHR ''}'' \<notin> set s"
  shows "tcl_value2python_value s = Str (strip s) \<and>
     python_value2tcl_value (Str s) =
       (if s = [] then [CHR 0x22, CHR 0x22]
        else if CHR '' '' \<in> set s then ''[list '' @ s @ '']''
        else s)"
proof -
  have "tcl_value2python_value s = Str (strip s)"
    using assms by (rule parse_brace_free)
  moreover from assms have "python_value2tcl_value (Str s) =
       (if s = [] then [CHR 0x22, CHR 0x22]
        else if CHR '' '' \<in> set s then ''[list '' @ s @ '']''
        else s)"
    by (simp add: empty_repr_def)
  ultimately show ?thesis by simp
qed

theorem brace_free_scalar_codec_witness:
  "CHR ''{'' \<notin> set ''  a b '' \<and> CHR ''}'' \<notin> set ''  a b '' \<and>
   tcl_value2python_value ''  a b '' = Str ''a b'' \<and>
   python_value2tcl_value (Str ''  a b '') = ''[list   a b ]''"
proof -
  have h: "CHR ''{'' \<notin> set ''  a b ''" "CHR ''}'' \<notin> set ''  a b ''" by simp_all
  have "strip ''  a b '' = ''a b''" by code_simp
  with brace_free_scalar_codec[OF h] h show ?thesis by simp
qed

text \<open>
  C2 as stated fails: a leading space is stripped by the parser, the empty string is not
  rendered as itself, and a string with a TAB (whitespace, but no space character) is
  rendered unwrapped.
\<close>

theorem brace_free_scalar_counterexample:
  "tcl_value2python_value '' a'' \<noteq> Str '' a'' \<and>
   python_value2tcl_value (Str []) \<noteq> [] \<and>
   isspace (CHR 0x09) \<and>
   python_value2tcl_value (Str [CHR ''a'', CHR 0x09, CHR ''b'']) = [CHR ''a'', CHR 0x09, CHR ''b'']"
  by code_simp

text \<open>
  C3. The test for the outer pair of braces looks at the first and the last character
  only. On \<open>{a} {b}\<close> it succeeds, the scan starts behind the first brace and stops
  at the first closing brace: the result is the one-element list of \<open>a\<close>, and the second
  group is lost, where the scan of the whole text from position 0 yields both groups.
  On \<open>{a b}\<close> the result is the flat list of \<open>a\<close> and \<open>b\<close>.
\<close>

theorem outer_brace_test_drops_second_group:
  "tcl_value2python_value ''{a} {b}'' = Lst [Str ''a''] \<and>
   Lst (fst (parse_list ''{a} {b}'' 0)) = Lst [Lst [Str ''a''], Lst [Str ''b'']] \<and>
   tcl_value2python_value ''{a b}'' = Lst [Str ''a'', Str ''b'']"
  by code_simp

lemma flush_append: "flush (r0 @ r) c = r0 @ flush r c"
  by (simp add: flush_def)

lemma parse_list_loop_acc:
  "parse_list_loop s i (r0 @ r) c =
     (r0 @ fst (parse_list_loop s i r c), snd (parse_list_loop s i r c))"
proof (induction s i r c rule: parse_list_loop.induct)
  case (1 s i result current)
  show ?case
  proof (cases "i < length s")
    case False
    then show ?thesis
      by (subst (1 2 3) parse_list_loop.simps) (simp add: flush_append)
  next
    case lt: True
    show ?thesis
    proof (cases "s ! i = CHR ''{''")
      case True
      obtain nested_list new_i where
        nested: "parse_list_loop s (i + 1) [] [] = (nested_list, new_i)"
        by (cases "parse_list_loop s (i + 1) [] []")
      have l: "parse_list_loop s i (r0 @ result) current =
          parse_list_loop s (new_i + 1) (r0 @ (flush result current @ [Lst nested_list])) []"
        by (subst parse_list_loop.simps)
           (simp only: if_P[OF lt] if_P[OF True] nested prod.case flush_append append_assoc)
      have r: "parse_list_loop s i result current =
          parse_list_loop s (new_i + 1) (flush result current @ [Lst nested_list]) []"
        by (subst parse_list_loop.simps) (simp only: if_P[OF lt] if_P[OF True] nested prod.case)
      from 1(2)[OF lt True nested[symmetric]] l r show ?thesis by simp
    next
      case nopen: False
      show ?thesis
      proof (cases "s ! i = CHR ''}''")
        case True
        have l: "parse_list_loop s i (r0 @ result) current = (flush (r0 @ result) current, i + 1)"
          by (subst parse_list_loop.simps) (simp only: if_P[OF lt] if_not_P[OF nopen] if_P[OF True])
        have r: "parse_list_loop s i result current = (flush result current, i + 1)"
          by (subst parse_list_loop.simps) (simp only: if_P[OF lt] if_not_P[OF nopen] if_P[OF True])
        from l r show ?thesis by (simp add: flush_append)
      next
        case nclose: False
        show ?thesis
        proof (cases "s ! i = CHR '' '' \<and> current \<noteq> []")
          case True
          have l: "parse_list_loop s i (r0 @ result) current =
              parse_list_loop s (i + 1) (r0 @ (result @ [Str (strip current)])) []"
            by (subst parse_list_loop.simps)
               (simp only: if_P[OF lt] if_not_P[OF nopen] if_not_P[OF nclose] if_P[OF True]
                  append_assoc)
          have r: "parse_list_loop s i result current =
              parse_list_loop s (i + 1) (result @ [Str (strip current)]) []"
            by (subst parse_list_loop.simps)
               (simp only: if_P[OF lt] if_not_P[OF nopen] if_not_P[OF nclose] if_P[OF True])
          from 1(3)[OF lt nopen nclose True] l r show ?thesis by simp
        next
          case False
          have l: "parse_list_loop s i (r0 @ result) current =
              parse_list_loop s (i + 1) (r0 @ result) (current @ [s ! i])"
            by (subst parse_list_loop.simps)
               (simp only: if_P[OF lt] if_not_P[OF nopen] if_not_P[OF nclose] if_not_P[OF False])
          have r: "parse_list_loop s i result current =
              parse_list_loop s (i + 1) result (current @ [s ! i])"
            by (subst parse_list_loop.simps)
               (simp only: if_P[OF lt] if_not_P[OF nopen] if_not_P[OF nclose] if_not_P[OF False])
          from 1(4)[OF lt nopen nclose False] l r show ?thesis by simp
        qed
      qed
    qed
  qed
qed

lemma parse_list_loop_shift:
  "parse_list_loop (p @ s) (length p + i) r c =
     (fst (parse_list_loop s i r c), length p + snd (parse_list_loop s i r c))"
proof (induction s i r c rule: parse_list_loop.induct)
  case (1 s i result current)
  let ?s = "p @ s" and ?i = "length p + i"
  have nth: "?s ! ?i = s ! i" by (simp add: nth_append)
  show ?case
  proof (cases "i < length s")
    case False
    then have F: "\<not> ?i < length ?s" by simp
    have "parse_list_loop ?s ?i result current = (flush result current, ?i)"
      by (subst parse_list_loop.simps) (simp only: if_not_P[OF F])
    moreover have "parse_list_loop s i result current = (flush result current, i)"
      by (subst parse_list_loop.simps) (simp only: if_not_P[OF False])
    ultimately show ?thesis by simp
  next
    case lt: True
    then have LT: "?i < length ?s" by simp
    show ?thesis
    proof (cases "s ! i = CHR ''{''")
      case True
      obtain nested_list new_i where
        nested: "parse_list_loop s (i + 1) [] [] = (nested_list, new_i)"
        by (cases "parse_list_loop s (i + 1) [] []")
      from 1(1)[OF lt True] nested
      have N: "parse_list_loop ?s (?i + 1) [] [] = (nested_list, length p + new_i)"
        by (simp add: add.assoc)
      have l: "parse_list_loop ?s ?i result current =
          parse_list_loop ?s (length p + new_i + 1) (flush result current @ [Lst nested_list]) []"
        by (subst parse_list_loop.simps)
           (simp only: if_P[OF LT] nth if_P[OF True] N prod.case)
      have r: "parse_list_loop s i result current =
          parse_list_loop s (new_i + 1) (flush result current @ [Lst nested_list]) []"
        by (subst parse_list_loop.simps) (simp only: if_P[OF lt] if_P[OF True] nested prod.case)
      from 1(2)[OF lt True nested[symmetric]] l r show ?thesis by (simp add: add.assoc)
    next
      case nopen: False
      show ?thesis
      proof (cases "s ! i = CHR ''}''")
        case True
        have l: "parse_list_loop ?s ?i result current = (flush result current, ?i + 1)"
          by (subst parse_list_loop.simps)
             (simp only: if_P[OF LT] nth if_not_P[OF nopen] if_P[OF True])
        have r: "parse_list_loop s i result current = (flush result current, i + 1)"
          by (subst parse_list_loop.simps) (simp only: if_P[OF lt] if_not_P[OF nopen] if_P[OF True])
        from l r show ?thesis by simp
      next
        case nclose: False
        show ?thesis
        proof (cases "s ! i = CHR '' '' \<and> current \<noteq> []")
          case True
          have l: "parse_list_loop ?s ?i result current =
              parse_list_loop ?s (?i + 1) (result @ [Str (strip current)]) []"
            by (subst parse_list_loop.simps)
               (simp only: if_P[OF LT] nth if_not_P[OF nopen] if_not_P[OF nclose] if_P[OF True])
          have r: "parse_list_loop s i result current =
              parse_list_loop s (i + 1) (result @ [Str (strip current)]) []"
            by (subst parse_list_loop.simps)
               (simp only: if_P[OF lt] if_not_P[OF nopen] if_not_P[OF nclose] if_P[OF True])
          from 1(3)[OF lt nopen nclose True] l r show ?thesis by (simp add: add.assoc)
        next
          case False
          have l: "parse_list_loop ?s ?i result current =
              parse_list_loop ?s (?i + 1) result (current @ [s ! i])"
            by (subst parse_list_loop.simps)
               (simp only: if_P[OF LT] nth if_not_P[OF nopen] if_not_P[OF nclose] if_not_P[OF False])
          have r: "parse_list_loop s i result current =
              parse_list_loop s (i + 1) result (current @ [s ! i])"
            by (subst parse_list_loop.simps)
               (simp only: if_P[OF lt] if_not_P[OF nopen] if_not_P[OF nclose] if_not_P[OF False])
          from 1(4)[OF lt nopen nclose False] l r show ?thesis by (simp add: add.assoc)
        qed
      qed
    qed
  qed
qed

lemma parse_list_loop_list_word:
  "parse_list_loop (''[list '' @ w) 0 [] [] =
     parse_list_loop (''[list '' @ w) (length ''[list '') [Str ''[list''] []"
proof -
  have st: "strip ''[list'' = ''[list''" by code_simp
  show ?thesis
    apply (subst parse_list_loop.simps, simp)
    apply (subst parse_list_loop.simps, simp)
    apply (subst parse_list_loop.simps, simp)
    apply (subst parse_list_loop.simps, simp)
    apply (subst parse_list_loop.simps, simp)
    apply (subst parse_list_loop.simps, simp add: st)
    done
qed

lemma parse_list_word:
  "fst (parse_list_loop (''[list '' @ w) 0 [] []) =
     Str ''[list'' # fst (parse_list_loop w 0 [] [])"
proof -
  have "parse_list_loop (''[list '' @ w) (length ''[list '') ([Str ''[list''] @ []) [] =
      ([Str ''[list''] @ fst (parse_list_loop (''[list '' @ w) (length ''[list '') [] []),
       snd (parse_list_loop (''[list '' @ w) (length ''[list '') [] []))"
    by (rule parse_list_loop_acc)
  moreover have "parse_list_loop (''[list '' @ w) (length ''[list '' + 0) [] [] =
      (fst (parse_list_loop w 0 [] []), length ''[list '' + snd (parse_list_loop w 0 [] []))"
    by (rule parse_list_loop_shift)
  ultimately show ?thesis unfolding parse_list_loop_list_word by simp
qed

lemma list_roundtrip_differs:
  "xs \<noteq> [] \<Longrightarrow>
     Str ''[list'' # fst (parse_list_loop (join '' '' (map list_element xs) @ '']'') 0 [] [])
       \<noteq> xs"
proof (induction xs)
  case Nil
  then show ?case by simp
next
  case (Cons x xs)
  show ?case
  proof
    assume eq: "Str ''[list'' #
        fst (parse_list_loop (join '' '' (map list_element (x # xs)) @ '']'') 0 [] []) = x # xs"
    then have x: "x = Str ''[list''" and
      tl: "fst (parse_list_loop (join '' '' (map list_element (x # xs)) @ '']'') 0 [] []) = xs"
      by simp_all
    have le: "list_element x = ''[list''" unfolding x by simp
    show False
    proof (cases xs)
      case Nil
      have "fst (parse_list_loop ''[list]'' 0 [] []) = [Str ''[list]'']" by code_simp
      with tl Nil le show False by simp
    next
      case (Cons y ys)
      have "join '' '' (map list_element (x # xs)) @ '']'' =
          ''[list '' @ (join '' '' (map list_element xs) @ '']'')"
        unfolding Cons using le by simp
      with tl have "Str ''[list'' #
          fst (parse_list_loop (join '' '' (map list_element xs) @ '']'') 0 [] []) = xs"
        by (simp only: parse_list_word)
      moreover from Cons have "xs \<noteq> []" by simp
      ultimately show False using Cons.IH by blast
    qed
  qed
qed

lemma list_cmd_strip: "strip (list_cmd es) = list_cmd es"
  unfolding list_cmd_def by (rule strip_id) simp_all

lemma roundtrip_list_differs:
  "tcl_value2python_value (python_value2tcl_value (Lst xs)) \<noteq> Lst xs"
proof (cases "xs = []")
  case True
  have "tcl_value2python_value [CHR 0x22, CHR 0x22] = Str [CHR 0x22, CHR 0x22]" by code_simp
  with True show ?thesis by (simp add: empty_repr_def)
next
  case False
  let ?v = "list_cmd (map list_element xs)"
  have v: "?v = ''[list '' @ (join '' '' (map list_element xs) @ '']'')"
    by (simp add: list_cmd_def)
  have hd: "hd ?v \<noteq> CHR ''{''" unfolding v by simp
  have ne: "?v \<noteq> []" unfolding v by simp
  have "fst (parse_list ?v 0) =
      Str ''[list'' # fst (parse_list_loop (join '' '' (map list_element xs) @ '']'') 0 [] [])"
    unfolding parse_list_def v by (rule parse_list_word)
  with list_roundtrip_differs[OF False] have "fst (parse_list ?v 0) \<noteq> xs" by simp
  with hd ne False show ?thesis
    by (simp add: tcl_value2python_value_def Let_def list_cmd_strip)
qed

lemma roundtrip_scalar_iff:
  "tcl_value2python_value (python_value2tcl_value (Str s)) = Str s \<longleftrightarrow>
     s \<noteq> [] \<and> CHR ''{'' \<notin> set s \<and> CHR ''}'' \<notin> set s \<and> CHR '' '' \<notin> set s \<and> strip s = s"
proof (cases "s = []")
  case True
  have "tcl_value2python_value [CHR 0x22, CHR 0x22] = Str [CHR 0x22, CHR 0x22]" by code_simp
  with True show ?thesis by (simp add: empty_repr_def)
next
  case ne: False
  show ?thesis
  proof (cases "CHR ''{'' \<in> set s \<or> CHR ''}'' \<in> set s")
    case True
    with parse_Str_brace_free[of "python_value2tcl_value (Str s)" s] show ?thesis by blast
  next
    case nb: False
    show ?thesis
    proof (cases "CHR '' '' \<in> set s")
      case True
      let ?r = "''[list '' @ s @ '']''"
      have r: "python_value2tcl_value (Str s) = ?r" using ne nb True by simp
      have "strip ?r = ?r" by (rule strip_id) simp_all
      moreover have "tcl_value2python_value ?r = Str (strip ?r)"
        using nb by (intro parse_brace_free) auto
      ultimately have "tcl_value2python_value ?r = Str ?r" by simp
      with r True show ?thesis by simp
    next
      case False
      with ne nb have "python_value2tcl_value (Str s) = s" by simp
      moreover have "tcl_value2python_value s = Str (strip s)"
        using nb by (intro parse_brace_free) auto
      ultimately show ?thesis using ne nb False by auto
    qed
  qed
qed

text \<open>
  C1, as the code has it. Parsing the rendered form of a value gives back the value
  exactly when the value is a string that is not empty, holds no brace and no space
  character and has no surrounding whitespace; no list is given back. (The renderer
  writes Tcl source text: two double quotes for an empty value and a \<open>[list ...]\<close>
  command for a list or a string with spaces; the parser reads such text as it stands.)
\<close>

theorem roundtrip_exactly_plain_scalars:
  "tcl_value2python_value (python_value2tcl_value v) = v \<longleftrightarrow>
     (\<exists>s. v = Str s \<and> s \<noteq> [] \<and> CHR ''{'' \<notin> set s \<and> CHR ''}'' \<notin> set s \<and>
        CHR '' '' \<notin> set s \<and> strip s = s)"
proof (cases v)
  case (Str s)
  with roundtrip_scalar_iff[of s] show ?thesis by simp
next
  case (Lst xs)
  with roundtrip_list_differs[of xs] show ?thesis by simp
qed

theorem roundtrip_exactly_plain_scalars_witness:
  "tcl_value2python_value (python_value2tcl_value (Str ''value1'')) = Str ''value1'' \<and>
   ''value1'' \<noteq> [] \<and> CHR ''{'' \<notin> set ''value1'' \<and> CHR ''}'' \<notin> set ''value1'' \<and>
   CHR '' '' \<notin> set ''value1'' \<and> strip ''value1'' = ''value1''"
proof -
  have "strip ''value1'' = ''value1''" by code_simp
  with roundtrip_exactly_plain_scalars[of "Str ''value1''"] show ?thesis by simp
qed

text \<open>
  C1 as stated fails on a list: the list of \<open>a\<close> and \<open>b\<close> is rendered as
  \<open>[list a b]\<close>, a text without braces, which is parsed as that string.
\<close>

theorem roundtrip_list_counterexample:
  "tcl_value2python_value (python_value2tcl_value (Lst [Str ''a'', Str ''b''])) \<noteq>
     Lst [Str ''a'', Str ''b'']"
  by code_simp

lemma parse_list_loop_le: "i \<le> snd (parse_list_loop s i result current)"
  by (rule parse_list_loop_index) (rule parse_list_loop_dom_all)

lemma opens_left: "opens s k j \<le> opens s i j" if "i \<le> k"
proof (cases "k \<le> j")
  case False
  then show ?thesis by (simp add: opens_def)
next
  case True
  have "take ((k - i) + (j - k)) (drop i s) =
      take (k - i) (drop i s) @ take (j - k) (drop (k - i) (drop i s))"
    by (rule take_add)
  moreover have "(k - i) + (j - k) = j - i" using that True by simp
  moreover have "drop (k - i) (drop i s) = drop k s" using that by simp
  ultimately have "take (j - i) (drop i s) = take (k - i) (drop i s) @ take (j - k) (drop k s)"
    by simp
  then show ?thesis by (simp add: opens_def)
qed

lemma opens_right: "opens s i j \<le> opens s i j'" if "j \<le> j'"
proof -
  have "take ((j - i) + (j' - i - (j - i))) (drop i s) =
      take (j - i) (drop i s) @ take (j' - i - (j - i)) (drop (j - i) (drop i s))"
    by (rule take_add)
  moreover have "(j - i) + (j' - i - (j - i)) = j' - i" using that by simp
  ultimately have "take (j' - i) (drop i s) = take (j - i) (drop i s) @
      take (j' - i - (j - i)) (drop (j - i) (drop i s))" by simp
  then show ?thesis by (simp add: opens_def)
qed

lemma opens_open:
  "i < length s \<Longrightarrow> s ! i = CHR ''{'' \<Longrightarrow> i < j \<Longrightarrow> opens s i j = Suc (opens s (i + 1) j)"
proof -
  assume a: "i < length s" "s ! i = CHR ''{''" "i < j"
  then obtain n where n: "j - i = Suc n" by (cases "j - i") auto
  from n have n': "j - (i + 1) = n" by simp
  from a n have "take (j - i) (drop i s) = s ! i # take (j - (i + 1)) (drop (i + 1) s)"
    unfolding n' by (simp add: Cons_nth_drop_Suc[symmetric])
  with a show ?thesis by (simp add: opens_def)
qed

lemma parse_list_depth_agrees:
  "opens s i (snd (parse_list_loop s i result current)) < d \<Longrightarrow>
     parse_list_depth d s i result current = Some (parse_list_loop s i result current)"
proof (induction s i result current arbitrary: d rule: parse_list_loop.induct)
  case (1 s i result current)
  from 1(5) obtain frames where d: "d = Suc frames" by (cases d) auto
  let ?j = "snd (parse_list_loop s i result current)"
  show ?case
  proof (cases "i < length s")
    case False
    have "parse_list_loop s i result current = (flush result current, i)"
      by (subst parse_list_loop.simps) (simp only: if_not_P[OF False])
    moreover have "parse_list_depth (Suc frames) s i result current = Some (flush result current, i)"
      by (subst parse_list_depth.simps) (simp only: if_not_P[OF False])
    ultimately show ?thesis unfolding d by simp
  next
    case lt: True
    show ?thesis
    proof (cases "s ! i = CHR ''{''")
      case True
      obtain nested_list new_i where
        nested: "parse_list_loop s (i + 1) [] [] = (nested_list, new_i)"
        by (cases "parse_list_loop s (i + 1) [] []")
      let ?r = "flush result current @ [Lst nested_list]"
      have r: "parse_list_loop s i result current = parse_list_loop s (new_i + 1) ?r []"
        by (subst parse_list_loop.simps) (simp only: if_P[OF lt] if_P[OF True] nested prod.case)
      have le1: "i + 1 \<le> new_i" using parse_list_loop_le[of "i + 1" s "[]" "[]"] nested by simp
      have le2: "new_i + 1 \<le> ?j" unfolding r by (rule parse_list_loop_le)
      from le1 le2 have ij: "i < ?j" by simp
      from 1(5) opens_open[OF lt True ij] have o: "opens s (i + 1) ?j < frames"
        unfolding d by simp
      have "opens s (i + 1) new_i \<le> opens s (i + 1) ?j" using le2 by (intro opens_right) simp
      with o nested have "opens s (i + 1) (snd (parse_list_loop s (i + 1) [] [])) < frames"
        by simp
      from 1(1)[OF lt True this] nested
      have n: "parse_list_depth frames s (i + 1) [] [] = Some (nested_list, new_i)" by simp
      have "opens s (new_i + 1) ?j \<le> opens s i ?j" using le1 by (intro opens_left) simp
      with 1(5) have "opens s (new_i + 1) (snd (parse_list_loop s (new_i + 1) ?r [])) < d"
        unfolding r by simp
      from 1(2)[OF lt True nested[symmetric] this]
      have c: "parse_list_depth d s (new_i + 1) ?r [] =
          Some (parse_list_loop s (new_i + 1) ?r [])" .
      have "parse_list_depth (Suc frames) s i result current =
          parse_list_depth (Suc frames) s (new_i + 1) ?r []"
        by (subst parse_list_depth.simps)
           (simp only: if_P[OF lt] if_P[OF True] n option.case prod.case)
      with c r show ?thesis unfolding d by simp
    next
      case nopen: False
      show ?thesis
      proof (cases "s ! i = CHR ''}''")
        case True
        have "parse_list_loop s i result current = (flush result current, i + 1)"
          by (subst parse_list_loop.simps) (simp only: if_P[OF lt] if_not_P[OF nopen] if_P[OF True])
        moreover have "parse_list_depth (Suc frames) s i result current =
            Some (flush result current, i + 1)"
          by (subst parse_list_depth.simps)
             (simp only: if_P[OF lt] if_not_P[OF nopen] if_P[OF True])
        ultimately show ?thesis unfolding d by simp
      next
        case nclose: False
        show ?thesis
        proof (cases "s ! i = CHR '' '' \<and> current \<noteq> []")
          case True
          let ?r = "result @ [Str (strip current)]"
          have r: "parse_list_loop s i result current = parse_list_loop s (i + 1) ?r []"
            by (subst parse_list_loop.simps)
               (simp only: if_P[OF lt] if_not_P[OF nopen] if_not_P[OF nclose] if_P[OF True])
          have "opens s (i + 1) ?j \<le> opens s i ?j" by (intro opens_left) simp
          with 1(5) have "opens s (i + 1) (snd (parse_list_loop s (i + 1) ?r [])) < d"
            unfolding r by simp
          from 1(3)[OF lt nopen nclose True this]
          have c: "parse_list_depth d s (i + 1) ?r [] = Some (parse_list_loop s (i + 1) ?r [])" .
          have "parse_list_depth (Suc frames) s i result current =
              parse_list_depth (Suc frames) s (i + 1) ?r []"
            by (subst parse_list_depth.simps)
               (simp only: if_P[OF lt] if_not_P[OF nopen] if_not_P[OF nclose] if_P[OF True])
          with c r show ?thesis unfolding d by simp
        next
          case False
          let ?c = "current @ [s ! i]"
          have r: "parse_list_loop s i result current = parse_list_loop s (i + 1) result ?c"
            by (subst parse_list_loop.simps)
               (simp only: if_P[OF lt] if_not_P[OF nopen] if_not_P[OF nclose] if_not_P[OF False])
          have "opens s (i + 1) ?j \<le> opens s i ?j" by (intro opens_left) simp
          with 1(5) have "opens s (i + 1) (snd (parse_list_loop s (i + 1) result ?c)) < d"
            unfolding r by simp
          from 1(4)[OF lt nopen nclose False this]
          have c: "parse_list_depth d s (i + 1) result ?c =
              Some (parse_list_loop s (i + 1) result ?c)" .
          have "parse_list_depth (Suc frames) s i result current =
              parse_list_depth (Suc frames) s (i + 1) result ?c"
            by (subst parse_list_depth.simps)
               (simp only: if_P[OF lt] if_not_P[OF nopen] if_not_P[OF nclose] if_not_P[OF False])
          with c r show ?thesis unfolding d by simp
        qed
      qed
    qed
  qed
qed

lemma parse_list_loop_shift0:
  "parse_list_loop (p @ s) (length p) r [] =
     (r @ fst (parse_list_loop s 0 [] []), length p + snd (parse_list_loop s 0 [] []))"
proof -
  have "parse_list_loop (p @ s) (length p + 0) r [] =
      (fst (parse_list_loop s 0 r []), length p + snd (parse_list_loop s 0 r []))"
    by (rule parse_list_loop_shift)
  moreover have "parse_list_loop s 0 (r @ []) [] =
      (r @ fst (parse_list_loop s 0 [] []), snd (parse_list_loop s 0 [] []))"
    by (rule parse_list_loop_acc)
  ultimately show ?thesis by simp
qed

lemma parse_list_loop_chars:
  "list_all (\<lambda>c. c \<noteq> CHR ''{'' \<and> c \<noteq> CHR ''}'' \<and> \<not> isspace c) u \<Longrightarrow>
     parse_list_loop (p @ u @ t) (length p) r c =
       parse_list_loop (p @ u @ t) (length p + length u) r (c @ u)"
proof (induction u arbitrary: p c)
  case Nil
  show ?case by simp
next
  case (Cons ch u)
  let ?s = "p @ (ch # u) @ t"
  from Cons.prems have ok: "ch \<noteq> CHR ''{''" "ch \<noteq> CHR ''}''" "ch \<noteq> CHR '' ''"
    and rest: "list_all (\<lambda>c. c \<noteq> CHR ''{'' \<and> c \<noteq> CHR ''}'' \<and> \<not> isspace c) u"
    by auto
  have lt: "length p < length ?s" by simp
  have nth: "?s ! length p = ch" by (simp add: nth_append)
  from ok(3) have nsp: "\<not> (ch = CHR '' '' \<and> c \<noteq> [])" by simp
  have "parse_list_loop ?s (length p) r c = parse_list_loop ?s (length p + 1) r (c @ [ch])"
    by (subst parse_list_loop.simps)
       (simp only: if_P[OF lt] nth if_not_P[OF ok(1)] if_not_P[OF ok(2)] if_not_P[OF nsp])
  also have "\<dots> = parse_list_loop ((p @ [ch]) @ u @ t) (length (p @ [ch])) r (c @ [ch])"
    by simp
  also have "\<dots> = parse_list_loop ((p @ [ch]) @ u @ t) (length (p @ [ch]) + length u) r
      ((c @ [ch]) @ u)"
    by (rule Cons.IH[OF rest])
  finally show ?case by simp
qed

lemma word_strip: "word w \<Longrightarrow> strip w = w"
proof -
  assume w: "word w"
  then have ne: "w \<noteq> []" and all: "\<forall>c\<in>set w. \<not> isspace c"
    by (auto simp: word_def list_all_iff)
  from ne all have "\<not> isspace (hd w)" "\<not> isspace (last w)" by auto
  with ne show ?thesis by (intro strip_id)
qed

lemma parse_word_close:
  assumes "word w"
  shows "parse_list_loop (w @ CHR ''}'' # rest) 0 [] [] = ([Str w], length w + 1)"
proof -
  let ?s = "w @ CHR ''}'' # rest"
  from assms have all: "list_all (\<lambda>c. c \<noteq> CHR ''{'' \<and> c \<noteq> CHR ''}'' \<and> \<not> isspace c) w"
    and ne: "w \<noteq> []" by (simp_all add: word_def)
  from parse_list_loop_chars[OF all, of "[]" "CHR ''}'' # rest" "[]" "[]"]
  have "parse_list_loop ?s 0 [] [] = parse_list_loop ?s (length w) [] w" by simp
  also have "\<dots> = (flush [] w, length w + 1)"
    by (rule parse_list_loop_close) simp_all
  finally show ?thesis using ne word_strip[OF assms] by (simp add: flush_def)
qed

lemma parse_word_space:
  assumes "word w"
  shows "parse_list_loop (w @ CHR '' '' # s2) 0 [] [] =
     (Str w # fst (parse_list_loop s2 0 [] []), length w + 1 + snd (parse_list_loop s2 0 [] []))"
proof -
  let ?s = "w @ CHR '' '' # s2"
  from assms have all: "list_all (\<lambda>c. c \<noteq> CHR ''{'' \<and> c \<noteq> CHR ''}'' \<and> \<not> isspace c) w"
    and ne: "w \<noteq> []" by (simp_all add: word_def)
  have lt: "length w < length ?s" by simp
  have nth: "?s ! length w = CHR '' ''" by (simp add: nth_append)
  have n1: "CHR '' '' \<noteq> CHR ''{''" and n2: "CHR '' '' \<noteq> CHR ''}''" by simp_all
  have sp: "CHR '' '' = CHR '' '' \<and> w \<noteq> []" using ne by simp
  from parse_list_loop_chars[OF all, of "[]" "CHR '' '' # s2" "[]" "[]"]
  have "parse_list_loop ?s 0 [] [] = parse_list_loop ?s (length w) [] w" by simp
  also have "\<dots> = parse_list_loop ?s (length w + 1) ([] @ [Str (strip w)]) []"
    by (subst parse_list_loop.simps)
       (simp only: if_P[OF lt] nth if_not_P[OF n1] if_not_P[OF n2] if_P[OF sp])
  also have "\<dots> = parse_list_loop ((w @ '' '') @ s2) (length (w @ '' '')) [Str w] []"
    using word_strip[OF assms] by simp
  also have "\<dots> = ([Str w] @ fst (parse_list_loop s2 0 [] []),
      length (w @ '' '') + snd (parse_list_loop s2 0 [] []))"
    by (rule parse_list_loop_shift0)
  finally show ?thesis by simp
qed

lemma parse_group_space:
  assumes "parse_list_loop (g @ CHR ''}'' # CHR '' '' # s2) 0 [] [] = (vs, length g + 1)"
  shows "parse_list_loop (CHR ''{'' # g @ CHR ''}'' # CHR '' '' # s2) 0 [] [] =
     (Lst vs # fst (parse_list_loop s2 0 [] []), length g + 3 + snd (parse_list_loop s2 0 [] []))"
proof -
  let ?s = "CHR ''{'' # g @ CHR ''}'' # CHR '' '' # s2"
  have lt: "0 < length ?s" by simp
  have nth: "?s ! 0 = CHR ''{''" by simp
  have "parse_list_loop (''{'' @ (g @ CHR ''}'' # CHR '' '' # s2)) (length ''{'') [] [] =
      ([] @ fst (parse_list_loop (g @ CHR ''}'' # CHR '' '' # s2) 0 [] []),
       length ''{'' + snd (parse_list_loop (g @ CHR ''}'' # CHR '' '' # s2) 0 [] []))"
    by (rule parse_list_loop_shift0)
  with assms have nested: "parse_list_loop ?s (0 + 1) [] [] = (vs, length g + 2)" by simp
  have "parse_list_loop ?s 0 [] [] =
      parse_list_loop ?s (length g + 2 + 1) (flush [] [] @ [Lst vs]) []"
    by (subst parse_list_loop.simps)
       (simp only: if_P[OF lt] nth if_P[OF refl] nested prod.case)
  also have "\<dots> = parse_list_loop ((CHR ''{'' # g @ ''} '') @ s2)
      (length (CHR ''{'' # g @ ''} '')) [Lst vs] []"
    by (simp add: flush_def)
  also have "\<dots> = ([Lst vs] @ fst (parse_list_loop s2 0 [] []),
      length (CHR ''{'' # g @ ''} '') + snd (parse_list_loop s2 0 [] []))"
    by (rule parse_list_loop_shift0)
  finally show ?thesis by simp
qed

lemma parse_texts:
  "well_formed es \<Longrightarrow>
     parse_list_loop (texts es @ CHR ''}'' # rest) 0 [] [] =
       (map value_of es, length (texts es) + 1)"
proof (induction es arbitrary: rest rule: well_formed.induct)
  case 1
  have "parse_list_loop (CHR ''}'' # rest) 0 [] [] = (flush [] [], 0 + 1)"
    by (rule parse_list_loop_close) simp_all
  then show ?case by (simp add: flush_def)
next
  case (2 w)
  then show ?case using parse_word_close[of w rest] by simp
next
  case (3 g)
  then show ?case by simp
next
  case (4 w e es)
  from 4(2) have w: "word w" and wf: "well_formed (e # es)" by simp_all
  from parse_word_space[OF w, of "texts (e # es) @ CHR ''}'' # rest"] 4(1)[OF wf, of rest]
  show ?case by simp
next
  case (5 g e es)
  from 5(3) have g: "well_formed g" and wf: "well_formed (e # es)" by simp_all
  let ?s2 = "texts (e # es) @ CHR ''}'' # rest"
  from 5(1)[OF g, of "CHR '' '' # ?s2"]
  have "parse_list_loop (texts g @ CHR ''}'' # CHR '' '' # ?s2) 0 [] [] =
      (map value_of g, length (texts g) + 1)" .
  from parse_group_space[OF this] 5(2)[OF wf, of rest]
  show ?case by simp
qed

lemma count_dropWhile:
  "length (filter P (dropWhile Q xs)) \<le> length (filter P xs)"
proof -
  have "length (filter P xs) = length (filter P (takeWhile Q xs @ dropWhile Q xs))" by simp
  also have "\<dots> = length (filter P (takeWhile Q xs)) + length (filter P (dropWhile Q xs))"
    by (simp only: filter_append length_append)
  finally show ?thesis by simp
qed

lemma count_strip: "length (filter P (strip s)) \<le> length (filter P s)"
proof -
  have "length (filter P (strip s)) =
      length (filter P (dropWhile isspace (rev (dropWhile isspace s))))"
    unfolding strip_def by (simp only: rev_filter[symmetric] length_rev)
  also have "\<dots> \<le> length (filter P (rev (dropWhile isspace s)))" by (rule count_dropWhile)
  also have "\<dots> = length (filter P (dropWhile isspace s))"
    by (simp only: rev_filter[symmetric] length_rev)
  also have "\<dots> \<le> length (filter P s)" by (rule count_dropWhile)
  finally show ?thesis .
qed

lemma opens_le_count: "opens s i j \<le> length (filter (\<lambda>c. c = CHR ''{'') s)"
proof -
  let ?P = "\<lambda>c. c = CHR ''{''"
  have a: "length (filter ?P (take n xs)) \<le> length (filter ?P xs)" for n and xs :: string
  proof -
    have "length (filter ?P xs) = length (filter ?P (take n xs @ drop n xs))" by simp
    also have "\<dots> = length (filter ?P (take n xs)) + length (filter ?P (drop n xs))"
      by (simp only: filter_append length_append)
    finally show ?thesis by simp
  qed
  have b: "length (filter ?P (drop n xs)) \<le> length (filter ?P xs)" for n and xs :: string
  proof -
    have "length (filter ?P xs) = length (filter ?P (take n xs @ drop n xs))" by simp
    also have "\<dots> = length (filter ?P (take n xs)) + length (filter ?P (drop n xs))"
      by (simp only: filter_append length_append)
    finally show ?thesis by simp
  qed
  from a[of "j - i" "drop i s"] b[of i s] show ?thesis unfolding opens_def by simp
qed

lemma parse_list_depth_count:
  "length (filter (\<lambda>c. c = CHR ''{'') s) < frames \<Longrightarrow>
     parse_list_depth frames s i result current = Some (parse_list_loop s i result current)"
  using opens_le_count[of s i "snd (parse_list_loop s i result current)"]
  by (intro parse_list_depth_agrees) simp

lemma depth_agrees_count:
  assumes "length (filter (\<lambda>c. c = CHR ''{'') s) < frames"
  shows "tcl_value2python_value_depth frames s = Some (tcl_value2python_value s)"
proof -
  from assms count_strip[of "\<lambda>c. c = CHR ''{''" s]
  have "length (filter (\<lambda>c. c = CHR ''{'') (strip s)) < frames" by simp
  then have "parse_list_depth frames (strip s) i [] [] = Some (parse_list (strip s) i)" for i
    unfolding parse_list_def by (rule parse_list_depth_count)
  then show ?thesis
    by (simp add: tcl_value2python_value_depth_def tcl_value2python_value_def Let_def)
qed

lemma strip_before_close:
  assumes "p = [] \<or> \<not> isspace (hd p)"
  shows "strip (p @ CHR ''}'' # rest) = p @ CHR ''}'' # rev (dropWhile isspace (rev rest))"
proof -
  have ns: "\<not> isspace CHR ''}''" by (simp add: isspace_def)
  from assms ns have a: "dropWhile isspace (p @ CHR ''}'' # rest) = p @ CHR ''}'' # rest"
    by (cases p) auto
  have "dropWhile isspace (rev rest @ CHR ''}'' # rev p) =
      dropWhile isspace (rev rest) @ CHR ''}'' # rev p"
  proof (cases "\<forall>c\<in>set (rev rest). isspace c")
    case True
    then have "dropWhile isspace (rev rest @ CHR ''}'' # rev p) =
        dropWhile isspace (CHR ''}'' # rev p)" by (intro dropWhile_append2) simp
    moreover from True have "dropWhile isspace (rev rest) = []" by simp
    moreover have "dropWhile isspace (CHR ''}'' # rev p) = CHR ''}'' # rev p"
      using ns by simp
    ultimately show ?thesis by (simp only: append_Nil)
  next
    case False
    then obtain c where "c \<in> set (rev rest)" "\<not> isspace c" by blast
    then show ?thesis by (simp add: dropWhile_append1)
  qed
  with a show ?thesis by (simp add: strip_def)
qed

lemma texts_hd:
  "well_formed es \<Longrightarrow> texts es = [] \<or> \<not> isspace (hd (texts es))"
proof (induction es rule: well_formed.induct)
  case (2 w)
  then have "w \<noteq> []" "\<forall>c\<in>set w. \<not> isspace c" by (auto simp: word_def list_all_iff)
  then show ?case by simp
next
  case (4 w e es)
  then have "w \<noteq> []" "\<forall>c\<in>set w. \<not> isspace c" by (auto simp: word_def list_all_iff)
  then show ?case by simp
qed (simp_all add: isspace_def)

lemma texts_hd_word:
  "well_formed es \<Longrightarrow> starts_word es \<Longrightarrow> texts es = [] \<or> hd (texts es) \<noteq> CHR ''{''"
proof (induction es rule: well_formed.induct)
  case (2 w)
  then have "w \<noteq> []" "\<forall>c\<in>set w. c \<noteq> CHR ''{''" by (auto simp: word_def list_all_iff)
  then show ?case by simp
next
  case (4 w e es)
  then have "w \<noteq> []" "\<forall>c\<in>set w. c \<noteq> CHR ''{''" by (auto simp: word_def list_all_iff)
  then show ?case by simp
qed simp_all

lemma parse_texts_depth:
  assumes wf: "well_formed es" and sw: "starts_word es"
    and fr: "length (filter (\<lambda>c. c = CHR ''{'') (texts es)) < frames"
  shows "tcl_value2python_value_depth frames (texts es @ CHR ''}'' # rest) =
     Some (Lst (map value_of es))"
proof -
  let ?rest = "rev (dropWhile isspace (rev rest))"
  let ?v = "texts es @ CHR ''}'' # ?rest"
  have v: "strip (texts es @ CHR ''}'' # rest) = ?v"
    using texts_hd[OF wf] by (rule strip_before_close)
  have hd: "hd ?v \<noteq> CHR ''{''"
    using texts_hd_word[OF wf sw] by (cases "texts es") auto
  have br: "CHR ''}'' \<in> set ?v" by simp
  have run: "parse_list_loop ?v 0 [] [] = (map value_of es, length (texts es) + 1)"
    using wf by (rule parse_texts)
  have "opens ?v 0 (length (texts es) + 1) = length (filter (\<lambda>c. c = CHR ''{'') (texts es))"
    by (simp add: opens_def)
  with fr run have "opens ?v 0 (snd (parse_list_loop ?v 0 [] [])) < frames" by simp
  then have "parse_list_depth frames ?v 0 [] [] = Some (parse_list_loop ?v 0 [] [])"
    by (rule parse_list_depth_agrees)
  with run have "parse_list_depth frames ?v 0 [] [] =
      Some (map value_of es, length (texts es) + 1)" by simp
  with hd br show ?thesis
    unfolding tcl_value2python_value_depth_def v Let_def by auto
qed

lemma parse_list_depth_opens_only:
  "frames \<le> n - i \<Longrightarrow>
     parse_list_depth frames (replicate n CHR ''{'') i result current = None"
proof (induction frames arbitrary: i result current)
  case 0
  show ?case by (simp add: parse_list_depth.simps)
next
  case (Suc frames)
  let ?s = "replicate n CHR ''{''"
  from Suc.prems have lt: "i < length ?s" by simp
  then have nth: "?s ! i = CHR ''{''" by simp
  from Suc.prems have "frames \<le> n - (i + 1)" by simp
  from Suc.IH[OF this] have n: "parse_list_depth frames ?s (i + 1) [] [] = None" .
  show ?case
    by (subst parse_list_depth.simps) (simp only: if_P[OF lt] nth if_P[OF refl] n option.case)
qed

lemma depth_opens_only:
  assumes "0 < n" "frames \<le> n"
  shows "tcl_value2python_value_depth frames (replicate n CHR ''{'') = None"
proof -
  let ?s = "replicate n CHR ''{''"
  from assms(1) have ne: "?s \<noteq> []" by simp
  have ns: "\<not> isspace CHR ''{''" by (simp add: isspace_def)
  from assms(1) have "hd ?s = CHR ''{''" "last ?s = CHR ''{''" by (cases n; simp)+
  with ne ns have st: "strip ?s = ?s" by (intro strip_id) simp_all
  from assms(1) have mem: "CHR ''{'' \<in> set ?s" by simp
  from assms(1) have last: "last ?s \<noteq> CHR ''}''" by (cases n) simp_all
  from assms(2) have "parse_list_depth frames ?s 0 [] [] = None"
    by (intro parse_list_depth_opens_only) simp
  with ne mem last show ?thesis
    unfolding tcl_value2python_value_depth_def st Let_def by simp
qed

text \<open>
  C7, as the code has it. When the text has fewer opening braces than the interpreter
  allows nested calls of \<open>parse_list\<close>, \<open>tcl_value2python_value\<close> returns a value
  and raises nothing. A closing brace without an opening one, after a word or at the
  start of the text, ends the list: for a list of words and groups that is empty or
  starts and ends with a word, written out and followed by a closing brace and any
  further text, the result is the list of these words and groups, whatever follows.
\<close>

theorem parse_returns_within_frames:
  "(length (filter (\<lambda>c. c = CHR ''{'') s) < frames \<longrightarrow>
      tcl_value2python_value_depth frames s = Some (tcl_value2python_value s)) \<and>
   (well_formed es \<and> starts_word es \<and>
    length (filter (\<lambda>c. c = CHR ''{'') (texts es)) < frames \<longrightarrow>
      tcl_value2python_value_depth frames (texts es @ CHR ''}'' # rest) =
        Some (Lst (map value_of es)))"
proof (rule conjI; rule impI)
  assume "length (filter (\<lambda>c. c = CHR ''{'') s) < frames"
  then show "tcl_value2python_value_depth frames s = Some (tcl_value2python_value s)"
    by (rule depth_agrees_count)
next
  assume "well_formed es \<and> starts_word es \<and>
    length (filter (\<lambda>c. c = CHR ''{'') (texts es)) < frames"
  then show "tcl_value2python_value_depth frames (texts es @ CHR ''}'' # rest) =
      Some (Lst (map value_of es))"
    by (intro parse_texts_depth) simp_all
qed

theorem parse_returns_within_frames_witness:
  "length (filter (\<lambda>c. c = CHR ''{'') ''{{a} b'') < 3 \<and>
   tcl_value2python_value_depth 3 ''{{a} b'' = Some (Lst [Lst [Lst [Str ''a''], Str ''b'']]) \<and>
   well_formed [Word ''a'', Group [Word ''b'', Word ''c''], Word ''d''] \<and>
   starts_word [Word ''a'', Group [Word ''b'', Word ''c''], Word ''d''] \<and>
   length (filter (\<lambda>c. c = CHR ''{'')
     (texts [Word ''a'', Group [Word ''b'', Word ''c''], Word ''d''])) < 2 \<and>
   tcl_value2python_value_depth 2 ''a {b c} d} e'' =
     Some (Lst [Str ''a'', Lst [Str ''b'', Str ''c''], Str ''d''])"
proof -
  let ?es = "[Word ''a'', Group [Word ''b'', Word ''c''], Word ''d'']"
  have h1: "length (filter (\<lambda>c. c = CHR ''{'') ''{{a} b'') < 3" by simp
  have v1: "tcl_value2python_value ''{{a} b'' = Lst [Lst [Lst [Str ''a''], Str ''b'']]"
    by code_simp
  have h2: "well_formed ?es" by code_simp
  have h3: "starts_word ?es" by simp
  have h4: "length (filter (\<lambda>c. c = CHR ''{'') (texts ?es)) < 2" by simp
  have t: "texts ?es @ CHR ''}'' # '' e'' = ''a {b c} d} e''" by simp
  from parse_returns_within_frames[of "''{{a} b''" 3] h1 v1
  have a: "tcl_value2python_value_depth 3 ''{{a} b'' = Some (Lst [Lst [Lst [Str ''a''], Str ''b'']])"
    by simp
  from parse_returns_within_frames[of _ 2 ?es "'' e''"] h2 h3 h4
  have "tcl_value2python_value_depth 2 (texts ?es @ CHR ''}'' # '' e'') =
      Some (Lst (map value_of ?es))" by blast
  then have b: "tcl_value2python_value_depth 2 ''a {b c} d} e'' =
     Some (Lst [Str ''a'', Lst [Str ''b'', Str ''c''], Str ''d''])"
    unfolding t by simp
  from h1 a h2 h3 h4 b show ?thesis by blast
qed

text \<open>
  C7 as stated fails: on a text of 1000 opening braces, with 1000 calls allowed,
  \<open>parse_list\<close> raises \<open>RecursionError\<close>; and in \<open>{a}} b\<close> the closing brace
  without an opening one does not end the list, the word after it is still read.
\<close>

theorem deep_nesting_counterexample:
  "tcl_value2python_value_depth 1000 (replicate 1000 CHR ''{'') = None \<and>
   tcl_value2python_value_depth 1000 ''{a}} b'' = Some (Lst [Lst [Str ''a''], Str ''b''])"
proof
  show "tcl_value2python_value_depth 1000 (replicate 1000 CHR ''{'') = None"
    by (rule depth_opens_only) simp_all
  show "tcl_value2python_value_depth 1000 ''{a}} b'' = Some (Lst [Lst [Str ''a''], Str ''b''])"
    by code_simp
qed

section \<open>Properties of merge_dicts and process_config_inputs\<close>

lemma map_of_merge_dicts:
  "distinct (map fst incoming) \<Longrightarrow>
   map_of (merge_dicts base incoming overwrite) k =
     (case map_of incoming k of
        None \<Rightarrow> map_of base k
      | Some (Tree v) \<Rightarrow>
          (case map_of base k of
             Some (Tree s) \<Rightarrow> Some (Tree (merge_dicts s v overwrite))
           | Some (Leaf x) \<Rightarrow> if overwrite then Some (Tree v) else Some (Leaf x)
           | None \<Rightarrow> Some (Tree v))
      | Some (Leaf v) \<Rightarrow>
          (if map_of base k = None \<or> overwrite then Some (Leaf v) else map_of base k))"
proof (induction incoming arbitrary: base)
  case Nil
  show ?case by simp
next
  case (Cons a rest)
  obtain key n where a: "a = (key, n)" by (cases a)
  from Cons.prems a have d: "distinct (map fst rest)" and nk: "map_of rest key = None"
    by (auto simp: map_of_eq_None_iff)
  note IH = Cons.IH[OF d]
  show ?case
  proof (cases n)
    case (Leaf x)
    show ?thesis
    proof (cases "map_of base key = None \<or> overwrite")
      case True
      then have "merge_dicts base (a # rest) overwrite =
          merge_dicts (AList.update key (Leaf x) base) rest overwrite"
        using a Leaf by auto
      with IH[of "AList.update key (Leaf x) base"] True nk a Leaf show ?thesis
        by (auto simp: update_conv' split: option.splits node.splits)
    next
      case False
      then have "merge_dicts base (a # rest) overwrite = merge_dicts base rest overwrite"
        using a Leaf by auto
      with IH[of base] False nk a Leaf show ?thesis
        by (auto simp: update_conv' split: option.splits node.splits)
    qed
  next
    case (Tree v)
    show ?thesis
    proof (cases "map_of base key")
      case None
      then have "merge_dicts base (a # rest) overwrite =
          merge_dicts (AList.update key (Tree v) base) rest overwrite"
        using a Tree by auto
      with IH[of "AList.update key (Tree v) base"] None nk a Tree show ?thesis
        by (auto simp: update_conv' split: option.splits node.splits)
    next
      case (Some b)
      show ?thesis
      proof (cases b)
        case (Leaf y)
        show ?thesis
        proof (cases overwrite)
          case True
          then have "merge_dicts base (a # rest) overwrite =
              merge_dicts (AList.update key (Tree v) base) rest overwrite"
            using a Tree Some Leaf by auto
          with IH[of "AList.update key (Tree v) base"] True Some Leaf nk a Tree show ?thesis
            by (auto simp: update_conv' split: option.splits node.splits)
        next
          case False
          then have "merge_dicts base (a # rest) overwrite = merge_dicts base rest overwrite"
            using a Tree Some Leaf by auto
          with IH[of base] False Some Leaf nk a Tree show ?thesis
            by (auto simp: update_conv' split: option.splits node.splits)
        qed
      next
        case sub: (Tree s)
        have "merge_dicts base (a # rest) overwrite =
            merge_dicts (AList.update key (Tree (merge_dicts s v overwrite)) base) rest overwrite"
          using a Tree Some sub by auto
        with IH[of "AList.update key (Tree (merge_dicts s v overwrite)) base"]
          Some sub nk a Tree show ?thesis
          by (auto simp: update_conv' split: option.splits node.splits)
      qed
    qed
  qed
qed

lemma update_fresh: "k \<notin> fst ` set r \<Longrightarrow> AList.update k v r = r @ [(k, v)]"
  by (induction r) auto

lemma merge_dicts_disjoint:
  "distinct (map fst d) \<Longrightarrow> fst ` set r \<inter> fst ` set d = {} \<Longrightarrow> merge_dicts r d ow = r @ d"
proof (induction d arbitrary: r)
  case Nil
  then show ?case by simp
next
  case (Cons a d)
  obtain k n where a: "a = (k, n)" by (cases a)
  from Cons.prems a have fresh: "k \<notin> fst ` set r" by auto
  then have none: "map_of r k = None" by (simp add: map_of_eq_None_iff)
  from Cons.prems a have d: "distinct (map fst d)" and
    disj: "fst ` set (r @ [(k, n)]) \<inter> fst ` set d = {}" by auto
  have "merge_dicts r (a # d) ow = merge_dicts (AList.update k n r) d ow"
    using none a by (cases n) simp_all
  also have "\<dots> = merge_dicts (r @ [(k, n)]) d ow" using fresh by (simp add: update_fresh)
  also have "\<dots> = (r @ [(k, n)]) @ d" by (rule Cons.IH[OF d disj])
  finally show ?case using a by simp
qed

lemma merge_dicts_empty: "distinct (map fst d) \<Longrightarrow> merge_dicts [] d ow = d"
  using merge_dicts_disjoint[of d "[]" ow] by simp

lemma inputs_loop_dicts:
  "\<forall>t\<in>set ts. distinct (map fst t) \<Longrightarrow>
   inputs_loop load n i (map DictInput ts) sd m =
     (foldl (\<lambda>m d. merge_dicts m d True) m ts,
      foldl (\<lambda>sd (j, d). AList.update (dict_source_name j n) d sd) sd
        (zip [i..<i + length ts] ts))"
proof (induction ts arbitrary: i sd m)
  case Nil
  then show ?case by simp
next
  case (Cons t ts)
  from Cons.prems have dt: "distinct (map fst t)" and rest: "\<forall>t\<in>set ts. distinct (map fst t)"
    by auto
  have m: "(if m \<noteq> [] then merge_dicts m t True else t) = merge_dicts m t True"
    using merge_dicts_empty[OF dt] by simp
  have up: "zip [i..<i + length (t # ts)] (t # ts) = (i, t) # zip [i + 1..<(i + 1) + length ts] ts"
    by (auto simp: upt_rec[of i] Suc_le_eq)
  have "inputs_loop load n i (map DictInput (t # ts)) sd m =
      inputs_loop load n (i + 1) (map DictInput ts)
        (AList.update (dict_source_name i n) t sd) (merge_dicts m t True)"
    using m by simp
  also have "\<dots> = (foldl (\<lambda>m d. merge_dicts m d True) (merge_dicts m t True) ts,
      foldl (\<lambda>sd (j, d). AList.update (dict_source_name j n) d sd)
        (AList.update (dict_source_name i n) t sd) (zip [i + 1..<(i + 1) + length ts] ts))"
    by (rule Cons.IH[OF rest])
  finally show ?case unfolding up by simp
qed

lemma dict_source_name_eq:
  "dict_source_name j n =
     (if int j = int n - 1 then ''Fixed Appendix info''
      else if j = 0 then ''Basic Appendix info'' else ''Appendix info apply'')"
  by (simp add: dict_source_name_def Let_def)

text \<open>
  C4. For \<open>incoming\<close> a dictionary (its keys distinct), the entry of the merge at a key
  is: the entry of \<open>base\<close> when \<open>incoming\<close> has none; the recursive merge, with the
  same flag, when both hold a nested dictionary; otherwise the entry of \<open>incoming\<close> when
  \<open>base\<close> has none or \<open>overwrite\<close> is set, and the entry of \<open>base\<close> when it has one
  and \<open>overwrite\<close> is not set. The example of the docstring holds.
\<close>

theorem merge_dicts_lookup:
  assumes "distinct (map fst incoming)"
  shows "map_of (merge_dicts base incoming overwrite) key =
     (case (map_of base key, map_of incoming key) of
        (b, None) \<Rightarrow> b
      | (Some (Tree s), Some (Tree v)) \<Rightarrow> Some (Tree (merge_dicts s v overwrite))
      | (None, Some e) \<Rightarrow> Some e
      | (Some b, Some e) \<Rightarrow> if overwrite then Some e else Some b)
   \<and> merge_dicts [(''a'', Leaf (1::int)), (''b'', Tree [(''c'', Leaf 2)])]
        [(''b'', Tree [(''d'', Leaf 3)]), (''e'', Leaf 4)] True =
       [(''a'', Leaf 1), (''b'', Tree [(''c'', Leaf 2), (''d'', Leaf 3)]), (''e'', Leaf 4)]"
  using map_of_merge_dicts[OF assms, of base overwrite key]
  by (auto split: option.splits node.splits)

theorem merge_dicts_lookup_witness:
  "distinct (map fst [(''b'', Tree [(''d'', Leaf (3::int))]), (''e'', Leaf 4)]) \<and>
   map_of (merge_dicts [(''a'', Leaf 1), (''b'', Tree [(''c'', Leaf 2)])]
             [(''b'', Tree [(''d'', Leaf 3)]), (''e'', Leaf 4)] False) ''b'' =
     Some (Tree [(''c'', Leaf 2), (''d'', Leaf 3)])"
proof -
  have h: "distinct (map fst [(''b'', Tree [(''d'', Leaf (3::int))]), (''e'', Leaf 4)])"
    by simp
  from merge_dicts_lookup[OF h, of "[(''a'', Leaf 1), (''b'', Tree [(''c'', Leaf 2)])]"
      False "''b''"] h
  show ?thesis by simp
qed

lemma map_of_foldl_update:
  "map_of (foldl (\<lambda>sd (j, t). AList.update (lab j) t sd) sd xs) =
     foldl (\<lambda>m (j, t). m(lab j \<mapsto> t)) (map_of sd) xs"
  by (induction xs arbitrary: sd) (auto simp: update_conv')

lemma foldl_upd_other:
  "\<forall>(j, t)\<in>set xs. lab j \<noteq> L \<Longrightarrow> foldl (\<lambda>m (j, t). m(lab j \<mapsto> t)) m xs L = m L"
  by (induction xs arbitrary: m) auto

lemma zip_upt_snoc:
  "ts \<noteq> [] \<Longrightarrow> zip [0..<length ts] ts =
     zip [0..<length ts - 1] (butlast ts) @ [(length ts - 1, last ts)]"
proof (induction ts rule: rev_induct)
  case Nil
  then show ?case by simp
next
  case (snoc x xs)
  show ?case by simp
qed

lemma source_label_last:
  assumes "ts \<noteq> []" and "\<And>j. j + 1 = length ts \<Longrightarrow> lab j = L"
  shows "map_of (foldl (\<lambda>sd (j, t). AList.update (lab j) t sd) [] (zip [0..<length ts] ts)) L
      = Some (last ts)"
proof -
  from assms(1) have "length ts - 1 + 1 = length ts" by (cases ts) auto
  then have "lab (length ts - 1) = L" by (rule assms(2))
  then show ?thesis
    unfolding map_of_foldl_update zip_upt_snoc[OF assms(1)] by simp
qed

lemma source_label_first:
  assumes "2 \<le> length ts" and "lab 0 = L" and "\<And>j. 0 < j \<Longrightarrow> lab j \<noteq> L"
  shows "map_of (foldl (\<lambda>sd (j, t). AList.update (lab j) t sd) [] (zip [0..<length ts] ts)) L
      = Some (hd ts)"
proof -
  from assms(1) obtain t ts' where ts: "ts = t # ts'" by (cases ts) auto
  have z: "zip [0..<length ts] ts = (0, t) # zip [1..<length ts] ts'"
    unfolding ts by (auto simp: upt_rec[of 0] Suc_le_eq)
  have "lab j \<noteq> L" if "(j, t') \<in> set (zip [1..<length ts] ts')" for j t'
  proof -
    from that have "j \<in> set [1..<length ts]" by (rule set_zip_leftD)
    then have "0 < j" by simp
    then show ?thesis by (rule assms(3))
  qed
  then have other: "\<forall>(j, t)\<in>set (zip [1..<length ts] ts'). lab j \<noteq> L" by blast
  from foldl_upd_other[OF other, of "Map.empty(lab 0 \<mapsto> t)"] assms(2) ts
  show ?thesis unfolding map_of_foldl_update z by simp
qed

text \<open>
  C5, as the code has it. For a list of dictionaries as inputs, the merged dictionary is
  the left fold of \<open>merge_dicts\<close> with overwrite over the inputs in order, and the
  mapping of the sources is built by storing each input, in order, under its label:
  \<open>Fixed Appendix info\<close> for the last input (also when it is the only one), else
  \<open>Basic Appendix info\<close> for the first, else \<open>Appendix info apply\<close> (inputs with the
  same label share one entry, which holds the last of them). So the mapping holds the
  last input under \<open>Fixed Appendix info\<close> and, when there are two inputs or more, the
  first under \<open>Basic Appendix info\<close>. The example holds.
\<close>

theorem process_config_inputs_dicts:
  assumes "\<forall>t\<in>set ts. distinct (map fst t)"
  shows "process_config_inputs load (map DictInput ts) =
     (foldl (\<lambda>merged t. merge_dicts merged t True) [] ts,
      foldl (\<lambda>source_dicts (j, t).
               AList.update
                 (if j + 1 = length ts then ''Fixed Appendix info''
                  else if j = 0 then ''Basic Appendix info''
                  else ''Appendix info apply'') t source_dicts)
        [] (zip [0..<length ts] ts))
   \<and> (ts \<noteq> [] \<longrightarrow>
        map_of (snd (process_config_inputs load (map DictInput ts))) ''Fixed Appendix info'' =
          Some (last ts))
   \<and> (2 \<le> length ts \<longrightarrow>
        map_of (snd (process_config_inputs load (map DictInput ts))) ''Basic Appendix info'' =
          Some (hd ts))
   \<and> process_config_inputs load
        [DictInput [(''var1'', Leaf ''value1''), (''var2'', Leaf ''value2'')],
         DictInput [(''var2'', Leaf ''value2b'')]] =
       ([(''var1'', Leaf ''value1''), (''var2'', Leaf ''value2b'')],
        [(''Basic Appendix info'', [(''var1'', Leaf ''value1''), (''var2'', Leaf ''value2'')]),
         (''Fixed Appendix info'', [(''var2'', Leaf ''value2b'')])])"
proof -
  let ?lab = "\<lambda>j. if j + 1 = length ts then ''Fixed Appendix info''
       else if j = 0 then ''Basic Appendix info'' else ''Appendix info apply''"
  have lab: "dict_source_name j (length ts) = ?lab j" for j
    unfolding dict_source_name_eq by auto
  have main: "process_config_inputs load (map DictInput ts) =
     (foldl (\<lambda>merged t. merge_dicts merged t True) [] ts,
      foldl (\<lambda>source_dicts (j, t). AList.update (?lab j) t source_dicts)
        [] (zip [0..<length ts] ts))"
    unfolding process_config_inputs_def
    using inputs_loop_dicts[OF assms, of load "length ts" 0 "[]" "[]"]
    by (simp add: lab)
  have fixed: "map_of (snd (process_config_inputs load (map DictInput ts)))
      ''Fixed Appendix info'' = Some (last ts)" if "ts \<noteq> []"
    unfolding main snd_conv by (rule source_label_last[OF that]) simp
  have basic: "map_of (snd (process_config_inputs load (map DictInput ts)))
      ''Basic Appendix info'' = Some (hd ts)" if "2 \<le> length ts"
    unfolding main snd_conv using that by (intro source_label_first) auto
  have example: "process_config_inputs load
        [DictInput [(''var1'', Leaf ''value1''), (''var2'', Leaf ''value2'')],
         DictInput [(''var2'', Leaf ''value2b'')]] =
       ([(''var1'', Leaf ''value1''), (''var2'', Leaf ''value2b'')],
        [(''Basic Appendix info'', [(''var1'', Leaf ''value1''), (''var2'', Leaf ''value2'')]),
         (''Fixed Appendix info'', [(''var2'', Leaf ''value2b'')])])"
    by (simp add: process_config_inputs_def dict_source_name_def)
  from main fixed basic example show ?thesis by blast
qed

theorem process_config_inputs_dicts_witness:
  "distinct (map fst [(''k'', Leaf ''1'')]) \<and> distinct (map fst [(''k'', Leaf ''2'')]) \<and>
   distinct (map fst [(''k'', Leaf ''3'')]) \<and> distinct (map fst [(''m'', Leaf ''4'')]) \<and>
   process_config_inputs (\<lambda>p. None)
     (map DictInput [[(''k'', Leaf ''1'')], [(''k'', Leaf ''2'')], [(''k'', Leaf ''3'')],
        [(''m'', Leaf ''4'')]]) =
     ([(''k'', Leaf ''3''), (''m'', Leaf ''4'')],
      [(''Basic Appendix info'', [(''k'', Leaf ''1'')]),
       (''Appendix info apply'', [(''k'', Leaf ''3'')]),
       (''Fixed Appendix info'', [(''m'', Leaf ''4'')])])"
proof -
  let ?ts = "[[(''k'', Leaf ''1'')], [(''k'', Leaf ''2'')], [(''k'', Leaf ''3'')],
      [(''m'', Leaf ''4'')]]"
  have h: "\<forall>t\<in>set ?ts. distinct (map fst t)" by simp
  have z: "zip [0..<length ?ts] ?ts = [(0, ?ts ! 0), (1, ?ts ! 1), (2, ?ts ! 2), (3, ?ts ! 3)]"
    by (simp add: upt_rec)
  from process_config_inputs_dicts[OF h, of "\<lambda>p. None"] h show ?thesis
    unfolding z by simp
qed

text \<open>
  C5 as stated fails on a single input: it is the first input, and its label is
  \<open>Fixed Appendix info\<close>; no source is labelled \<open>Basic Appendix info\<close>.
\<close>

theorem single_input_label_counterexample:
  "process_config_inputs (\<lambda>p. None) [DictInput [(''var1'', Leaf ''value1'')]] =
     ([(''var1'', Leaf ''value1'')], [(''Fixed Appendix info'', [(''var1'', Leaf ''value1'')])])"
  by (simp add: process_config_inputs_def dict_source_name_def)

section \<open>Properties of set_nested_dict\<close>

lemma lookup_path_Cons:
  "lookup_path d (k # q) =
     (if q = [] then map_of d k
      else (case map_of d k of Some (Tree sub) \<Rightarrow> lookup_path sub q | _ \<Rightarrow> None))"
  by (cases q) (auto split: option.splits node.splits)

lemma lookup_path_empty: "q \<noteq> [] \<Longrightarrow> lookup_path [] q = None"
  by (cases q) (simp_all add: lookup_path_Cons)

lemma strict_prefix_Cons_iff:
  "strict_prefix p (k # ks) \<longleftrightarrow> p = [] \<or> (\<exists>p'. p = k # p' \<and> strict_prefix p' ks)"
  by (cases p) auto

lemma is_terminal_iff: "is_terminal n \<longleftrightarrow> (\<exists>x. n = Some (Leaf x))"
  by (cases n rule: is_terminal.cases) simp_all

lemma terminal_on_path_iff:
  "terminal_on_path d keys \<longleftrightarrow>
     (\<exists>p x. p \<noteq> [] \<and> strict_prefix p keys \<and> lookup_path d p = Some (Leaf x))"
  by (auto simp: terminal_on_path_def list_ex_iff strict_prefix_def is_terminal_iff)

lemma terminal_on_path_single: "\<not> terminal_on_path d [k]"
  by (auto simp: terminal_on_path_iff strict_prefix_Cons_iff)

lemma terminal_on_path_Cons:
  "terminal_on_path d (k # k' # ks) \<longleftrightarrow>
     (case map_of d k of
        None \<Rightarrow> False
      | Some (Leaf x) \<Rightarrow> True
      | Some (Tree sub) \<Rightarrow> terminal_on_path sub (k' # ks))"
proof -
  have "terminal_on_path d (k # k' # ks) \<longleftrightarrow>
      (\<exists>p' x. strict_prefix p' (k' # ks) \<and> lookup_path d (k # p') = Some (Leaf x))"
    unfolding terminal_on_path_iff strict_prefix_Cons_iff[of _ k] by auto
  also have "\<dots> \<longleftrightarrow> (case map_of d k of
        None \<Rightarrow> False
      | Some (Leaf x) \<Rightarrow> True
      | Some (Tree sub) \<Rightarrow> terminal_on_path sub (k' # ks))"
  proof (cases "map_of d k")
    case None
    then show ?thesis by (auto simp: lookup_path_Cons)
  next
    case (Some n)
    show ?thesis
    proof (cases n)
      case (Leaf x)
      have "strict_prefix [] (k' # ks)" by simp
      moreover have "lookup_path d (k # []) = Some (Leaf x)" using Some Leaf by simp
      ultimately have "\<exists>p' x. strict_prefix p' (k' # ks) \<and> lookup_path d (k # p') = Some (Leaf x)"
        by blast
      then show ?thesis using Some Leaf by simp
    next
      case (Tree sub)
      with Some show ?thesis
        by (auto simp: lookup_path_Cons terminal_on_path_iff)
    qed
  qed
  finally show ?thesis .
qed

lemma set_nested_dict_error_iff:
  "keys \<noteq> [] \<Longrightarrow> (\<exists>e. set_nested_dict d keys v = Inl e) \<longleftrightarrow> terminal_on_path d keys"
proof (induction d keys v rule: set_nested_dict.induct)
  case (1 d "value")
  then show ?case by simp
next
  case (2 d key "value")
  show ?case by (simp add: terminal_on_path_single)
next
  case (3 d key key' keys "value")
  show ?case
  proof (cases "map_of d key")
    case None
    have "\<not> terminal_on_path [] (key' # keys)"
      by (auto simp: terminal_on_path_iff lookup_path_empty)
    with 3(1)[OF None] None show ?thesis
      by (auto simp: terminal_on_path_Cons store_sub_def split: sum.splits)
  next
    case (Some n)
    show ?thesis
    proof (cases n)
      case (Leaf x)
      with Some show ?thesis by (simp add: terminal_on_path_Cons)
    next
      case (Tree sub)
      with 3(2)[OF Some Tree] Some show ?thesis
        by (auto simp: terminal_on_path_Cons store_sub_def split: sum.splits)
    qed
  qed
qed

lemma set_nested_dict_result:
  "set_nested_dict d keys v = Inr d' \<Longrightarrow>
     lookup_path d' keys = Some v \<and>
     (\<forall>p. p \<noteq> [] \<and> strict_prefix p keys \<longrightarrow> (\<exists>t. lookup_path d' p = Some (Tree t))) \<and>
     (\<forall>q. \<not> prefix q keys \<and> \<not> prefix keys q \<longrightarrow> lookup_path d' q = lookup_path d q)"
proof (induction d keys v arbitrary: d' rule: set_nested_dict.induct)
  case (1 d "value")
  then show ?case by simp
next
  case (2 d key "value")
  then have d': "d' = AList.update key value d" by simp
  have "lookup_path d' q = lookup_path d q" if "\<not> prefix q [key]" "\<not> prefix [key] q" for q
  proof (cases q)
    case Nil
    with that show ?thesis by simp
  next
    case (Cons k q')
    with that have "k \<noteq> key" by auto
    then show ?thesis unfolding Cons d' by (simp add: lookup_path_Cons update_conv')
  qed
  then show ?case using d' by (auto simp: update_conv' strict_prefix_Cons_iff)
next
  case (3 d key key' keys "value")
  let ?ks = "key' # keys"
  obtain sub0 where sub0: "sub0 = (case map_of d key of Some (Tree s) \<Rightarrow> s | _ \<Rightarrow> [])"
    by simp
  from 3(3) obtain sub' where
    rec: "set_nested_dict sub0 ?ks value = Inr sub'" and
    d': "d' = AList.update key (Tree sub') d" and
    old: "map_of d key = None \<or> map_of d key = Some (Tree sub0)"
    unfolding sub0
    by (auto simp: store_sub_def split: option.splits node.splits sum.splits)
  have IH: "lookup_path sub' ?ks = Some value \<and>
     (\<forall>p. p \<noteq> [] \<and> strict_prefix p ?ks \<longrightarrow> (\<exists>t. lookup_path sub' p = Some (Tree t))) \<and>
     (\<forall>q. \<not> prefix q ?ks \<and> \<not> prefix ?ks q \<longrightarrow> lookup_path sub' q = lookup_path sub0 q)"
    using old
  proof
    assume n: "map_of d key = None"
    with sub0 have "sub0 = []" by simp
    with 3(1)[OF n, of sub'] rec show ?thesis by simp
  next
    assume s: "map_of d key = Some (Tree sub0)"
    from 3(2)[OF s refl, of sub'] rec show ?thesis by simp
  qed
  have look: "lookup_path d' (key # q) = (if q = [] then Some (Tree sub') else lookup_path sub' q)"
    for q unfolding d' by (simp add: lookup_path_Cons update_conv')
  have a: "lookup_path d' (key # ?ks) = Some value" using IH look[of ?ks] by simp
  have b: "\<exists>t. lookup_path d' p = Some (Tree t)"
    if "p \<noteq> []" "strict_prefix p (key # ?ks)" for p
  proof -
    from that obtain p' where p: "p = key # p'" and sp: "strict_prefix p' ?ks"
      by (auto simp: strict_prefix_Cons_iff[of p])
    show ?thesis
    proof (cases "p' = []")
      case True
      with p look[of "[]"] show ?thesis by simp
    next
      case False
      with IH sp obtain t where "lookup_path sub' p' = Some (Tree t)" by blast
      with p False look[of p'] show ?thesis by simp
    qed
  qed
  have c: "lookup_path d' q = lookup_path d q"
    if "\<not> prefix q (key # ?ks)" "\<not> prefix (key # ?ks) q" for q
  proof (cases q)
    case Nil
    with that show ?thesis by simp
  next
    case (Cons k q')
    show ?thesis
    proof (cases "k = key")
      case False
      then show ?thesis unfolding Cons d' by (simp add: lookup_path_Cons update_conv')
    next
      case True
      with that Cons have np: "\<not> prefix q' ?ks" "\<not> prefix ?ks q'" by auto
      then have ne: "q' \<noteq> []" by auto
      from IH np have eq: "lookup_path sub' q' = lookup_path sub0 q'" by blast
      have "lookup_path d (key # q') = lookup_path sub0 q'"
        using old
      proof
        assume n: "map_of d key = None"
        with sub0 have "sub0 = []" by simp
        with n ne show ?thesis by (simp add: lookup_path_Cons lookup_path_empty)
      next
        assume "map_of d key = Some (Tree sub0)"
        with ne show ?thesis by (simp add: lookup_path_Cons)
      qed
      with eq look[of q'] ne show ?thesis unfolding Cons True by simp
    qed
  qed
  from a b c show ?case by blast
qed

text \<open>
  C9. For a key path of at least two segments: when an intermediate segment holds a
  terminal value, \<open>set_nested_dict\<close> raises; otherwise it returns, the path then leads
  to the value, every intermediate segment holds a dictionary, and every path that
  neither leads towards the key path nor extends it leads where it led before.
\<close>

theorem set_nested_dict_blocked_or_set:
  assumes "2 \<le> length keys"
  shows "(terminal_on_path d keys \<longrightarrow> (\<exists>e. set_nested_dict d keys v = Inl e)) \<and>
     (\<not> terminal_on_path d keys \<longrightarrow>
        (\<exists>d'. set_nested_dict d keys v = Inr d' \<and>
           lookup_path d' keys = Some v \<and>
           (\<forall>p. p \<noteq> [] \<and> strict_prefix p keys \<longrightarrow> (\<exists>t. lookup_path d' p = Some (Tree t))) \<and>
           (\<forall>q. \<not> prefix q keys \<and> \<not> prefix keys q \<longrightarrow> lookup_path d' q = lookup_path d q)))"
proof -
  from assms have ne: "keys \<noteq> []" by auto
  note iff = set_nested_dict_error_iff[OF ne, of d v]
  show ?thesis
  proof (intro conjI impI)
    assume "terminal_on_path d keys"
    with iff show "\<exists>e. set_nested_dict d keys v = Inl e" by simp
  next
    assume "\<not> terminal_on_path d keys"
    with iff obtain d' where r: "set_nested_dict d keys v = Inr d'"
      by (cases "set_nested_dict d keys v") auto
    from set_nested_dict_result[OF r] r
    show "\<exists>d'. set_nested_dict d keys v = Inr d' \<and>
           lookup_path d' keys = Some v \<and>
           (\<forall>p. p \<noteq> [] \<and> strict_prefix p keys \<longrightarrow> (\<exists>t. lookup_path d' p = Some (Tree t))) \<and>
           (\<forall>q. \<not> prefix q keys \<and> \<not> prefix keys q \<longrightarrow> lookup_path d' q = lookup_path d q)"
      by blast
  qed
qed

theorem set_nested_dict_blocked_or_set_witness:
  "2 \<le> length [''a'', ''b'', ''c''] \<and>
   terminal_on_path [(''a'', Tree [(''b'', Leaf (0::int))])] [''a'', ''b'', ''c''] \<and>
   (\<exists>e. set_nested_dict [(''a'', Tree [(''b'', Leaf (0::int))])] [''a'', ''b'', ''c''] (Leaf 1)
      = Inl e) \<and>
   \<not> terminal_on_path [(''x'', Leaf (0::int))] [''a'', ''b'', ''c''] \<and>
   (\<exists>d'. set_nested_dict [(''x'', Leaf (0::int))] [''a'', ''b'', ''c''] (Leaf 1) = Inr d' \<and>
      lookup_path d' [''a'', ''b'', ''c''] = Some (Leaf 1) \<and>
      lookup_path d' [''x''] = lookup_path [(''x'', Leaf 0)] [''x''])"
proof -
  have l: "2 \<le> length [''a'', ''b'', ''c'']" by simp
  have b: "terminal_on_path [(''a'', Tree [(''b'', Leaf (0::int))])] [''a'', ''b'', ''c'']"
    by code_simp
  have f: "\<not> terminal_on_path [(''x'', Leaf (0::int))] [''a'', ''b'', ''c'']"
    by code_simp
  have q: "\<not> prefix [''x''] [''a'', ''b'', ''c''] \<and> \<not> prefix [''a'', ''b'', ''c''] [''x'']"
    by simp
  from set_nested_dict_blocked_or_set[OF l,
      of "[(''a'', Tree [(''b'', Leaf (0::int))])]" "Leaf 1"] b
  have 1: "\<exists>e. set_nested_dict [(''a'', Tree [(''b'', Leaf (0::int))])] [''a'', ''b'', ''c'']
      (Leaf 1) = Inl e" by blast
  from set_nested_dict_blocked_or_set[OF l, of "[(''x'', Leaf (0::int))]" "Leaf 1"] f q
  have 2: "\<exists>d'. set_nested_dict [(''x'', Leaf (0::int))] [''a'', ''b'', ''c''] (Leaf 1) = Inr d' \<and>
      lookup_path d' [''a'', ''b'', ''c''] = Some (Leaf 1) \<and>
      lookup_path d' [''x''] = lookup_path [(''x'', Leaf 0)] [''x'']" by blast
  from l b f 1 2 show ?thesis by blast
qed

section \<open>Properties of dict_to_tcl\<close>

lemma sort_cong_mset: "mset xs = mset ys \<Longrightarrow> sort xs = sort (ys :: string list)"
  by (rule properties_for_sort) simp_all

lemma process_items_Cons:
  "process_items (x # d) pfx = process_items [x] pfx @ process_items d pfx"
proof -
  obtain k n where x: "x = (k, n)" by (cases x)
  show ?thesis unfolding x by (cases n) simp_all
qed

lemma reorder_items:
  "reorder d d' \<Longrightarrow> mset (process_items d pfx) = mset (process_items d' pfx)"
proof (induction arbitrary: pfx rule: reorder.induct)
  case reorder_nil
  show ?case by simp
next
  case (reorder_leaf d d' k v)
  then show ?case by simp
next
  case (reorder_tree s s' d d' k)
  have "sort (process_items s (var_name pfx k)) = sort (process_items s' (var_name pfx k))"
    by (rule sort_cong_mset) (rule reorder_tree.IH)
  with reorder_tree.IH(2)[of pfx] show ?case by simp
next
  case (reorder_swap x y d)
  have "process_items (x # y # d) pfx =
      process_items [x] pfx @ process_items [y] pfx @ process_items d pfx"
    using process_items_Cons[of x "y # d" pfx] process_items_Cons[of y d pfx] by simp
  moreover have "process_items (y # x # d) pfx =
      process_items [y] pfx @ process_items [x] pfx @ process_items d pfx"
    using process_items_Cons[of y "x # d" pfx] process_items_Cons[of x d pfx] by simp
  ultimately show ?case by simp
next
  case (reorder_trans d d' d'')
  then show ?case by simp
qed


lemma process_dict_sorted: "sorted (process_dict d pfx)"
  by (simp only: process_dict.simps sorted_sort)

lemma source_sections_sorted:
  "source_sections data = Inr sections \<Longrightarrow> sec \<in> set sections \<Longrightarrow> sorted (snd sec)"
proof (induction data arbitrary: sections rule: source_sections.induct)
  case 1
  then show ?case by simp
next
  case (2 source_name source_dict rest)
  from 2(2) obtain secs where
    r: "source_sections rest = Inr secs" and
    s: "sections = (Some source_name, process_dict source_dict []) # secs"
    by (cases "source_sections rest") simp_all
  from 2(3) s have "sec = (Some source_name, process_dict source_dict []) \<or> sec \<in> set secs"
    by simp
  then show ?case
  proof
    assume "sec = (Some source_name, process_dict source_dict [])"
    then show ?thesis using process_dict_sorted[of source_dict "[]"] by (simp only: snd_conv)
  next
    assume "sec \<in> set secs"
    with 2(1)[OF r] show ?thesis .
  qed
next
  case (3 source_name v rest)
  then show ?case by simp
qed


text \<open>
  C10. In every section that \<open>dict_to_tcl\<close> writes, with or without sources, the
  \<open>set\<close> statements are sorted in the lexicographic order of their text; and the
  statements of a dictionary do not depend on the insertion order of its keys.
\<close>

theorem dict_to_tcl_statements_sorted:
  "(dict_to_tcl data with_source = Inr sections \<longrightarrow> (\<forall>sec\<in>set sections. sorted (snd sec))) \<and>
   (reorder d d' \<longrightarrow> process_dict d pfx = process_dict d' pfx)"
proof (intro conjI impI ballI)
  fix sec
  assume r: "dict_to_tcl data with_source = Inr sections" and m: "sec \<in> set sections"
  show "sorted (snd sec)"
  proof (cases with_source)
    case True
    with r have "source_sections data = Inr sections" by (simp add: dict_to_tcl_def)
    then show ?thesis using m by (rule source_sections_sorted)
  next
    case False
    with r have "sections = [(None, process_dict data [])]" by (simp add: dict_to_tcl_def)
    with m have "snd sec = process_dict data []" by simp
    then show ?thesis using process_dict_sorted[of data "[]"] by (simp only:)
  qed
next
  assume "reorder d d'"
  then have "mset (process_items d pfx) = mset (process_items d' pfx)" by (rule reorder_items)
  then have "sort (process_items d pfx) = sort (process_items d' pfx)" by (rule sort_cong_mset)
  then show "process_dict d pfx = process_dict d' pfx" by (simp only: process_dict.simps)
qed

theorem dict_to_tcl_statements_sorted_witness:
  "dict_to_tcl [(''b'', Tree [(''y'', Leaf (Str ''2'')), (''x'', Leaf (Str ''1''))]),
                (''a'', Leaf (Lst [Str ''u v'', Str ''w'']))] False =
     Inr [(None, [''set a [list {u v} w]'', ''set b(x) 1'', ''set b(y) 2''])] \<and>
   sorted [''set a [list {u v} w]'', ''set b(x) 1'', ''set b(y) 2''] \<and>
   reorder [(''b'', Leaf (Str ''1'')), (''a'', Leaf (Str ''2''))]
           [(''a'', Leaf (Str ''2'')), (''b'', Leaf (Str ''1''))] \<and>
   process_dict [(''b'', Leaf (Str ''1'')), (''a'', Leaf (Str ''2''))] [] =
     process_dict [(''a'', Leaf (Str ''2'')), (''b'', Leaf (Str ''1''))] []"
proof -
  let ?data = "[(''b'', Tree [(''y'', Leaf (Str ''2'')), (''x'', Leaf (Str ''1''))]),
                (''a'', Leaf (Lst [Str ''u v'', Str ''w'']))]"
  let ?lines = "[''set a [list {u v} w]'', ''set b(x) 1'', ''set b(y) 2'']"
  have e: "dict_to_tcl ?data False = Inr [(None, ?lines)]" by code_simp
  have r: "reorder [(''b'', Leaf (Str ''1'')), (''a'', Leaf (Str ''2''))]
           [(''a'', Leaf (Str ''2'')), (''b'', Leaf (Str ''1''))]"
    by (rule reorder_swap)
  note t = dict_to_tcl_statements_sorted[of ?data False "[(None, ?lines)]"
      "[(''b'', Leaf (Str ''1'')), (''a'', Leaf (Str ''2''))]"
      "[(''a'', Leaf (Str ''2'')), (''b'', Leaf (Str ''1''))]" "[]"]
  have "(None, ?lines) \<in> set [(None, ?lines)]" by (simp only: list.set insertI1)
  with t e have "sorted (snd (None :: string option, ?lines))" by blast
  then have "sorted ?lines" by (simp only: snd_conv)
  moreover from t r have "process_dict [(''b'', Leaf (Str ''1'')), (''a'', Leaf (Str ''2''))] [] =
     process_dict [(''a'', Leaf (Str ''2'')), (''b'', Leaf (Str ''1''))] []" by blast
  ultimately show ?thesis using e r by blast
qed


section \<open>Properties of merge_dicts on the store\<close>

lemma merge_store_frame:
  "merge_dicts_store depth st dict1 dict2 overwrite = Some (st', r) \<Longrightarrow>
     r = length st \<and> r < length st' \<and> (\<forall>a<length st. st' ! a = st ! a)"
  "merge_items_store depth st result items overwrite = Some (st', r) \<Longrightarrow>
     result < length st \<Longrightarrow>
     r = result \<and> length st \<le> length st' \<and>
     (\<forall>a<length st. a \<noteq> result \<longrightarrow> st' ! a = st ! a)"
proof (induction depth st dict1 dict2 overwrite and depth st result items overwrite
    arbitrary: st' r and st' r rule: merge_dicts_store_merge_items_store.induct)
  case (1 st dict1 dict2 overwrite)
  then show ?case by simp
next
  case (2 depth st dict1 dict2 overwrite)
  from 2(2) have ok: "dict1 < length st \<and> dict2 < length st"
    by (simp split: if_splits)
  with 2(2) have run: "merge_items_store depth (st @ [st ! dict1]) (length st) (st ! dict2)
      overwrite = Some (st', r)" by simp
  from 2(1)[OF ok run] have r: "r = length st" and
    len: "length (st @ [st ! dict1]) \<le> length st'" and
    same: "\<forall>a<length (st @ [st ! dict1]). a \<noteq> length st \<longrightarrow> st' ! a = (st @ [st ! dict1]) ! a"
    by simp_all
  from same have "\<forall>a<length st. st' ! a = st ! a" by (simp add: nth_append)
  with r len show ?case by simp
next
  case (3 depth st result overwrite)
  then show ?case by simp
next
  case (4 depth st result key v rest overwrite)
  note res = \<open>result < length st\<close>
  note run = \<open>merge_items_store depth st result ((key, Ref v) # rest) overwrite = Some (st', r)\<close>
  let ?st2 = "st[result := AList.update key (Ref v) (st ! result)]"
  have upd: "r = result \<and> length st \<le> length st' \<and>
      (\<forall>a<length st. a \<noteq> result \<longrightarrow> st' ! a = st ! a)"
    if "r = result \<and> length ?st2 \<le> length st' \<and>
      (\<forall>a<length ?st2. a \<noteq> result \<longrightarrow> st' ! a = ?st2 ! a)"
    using that by simp
  show ?case
  proof (cases "map_of (st ! result) key")
    case None
    with run have "merge_items_store depth ?st2 result rest overwrite = Some (st', r)" by simp
    from 4(1)[OF None this] res show ?thesis by (intro upd) simp
  next
    case (Some e)
    show ?thesis
    proof (cases e)
      case (Val x)
      show ?thesis
      proof (cases overwrite)
        case True
        with run Some Val have "merge_items_store depth ?st2 result rest overwrite = Some (st', r)"
          by simp
        from 4(2)[OF Some Val True this] res show ?thesis by (intro upd) simp
      next
        case False
        with run Some Val have "merge_items_store depth st result rest overwrite = Some (st', r)"
          by simp
        from 4(3)[OF Some Val False this res] show ?thesis .
      qed
    next
      case (Ref sub)
      from run Some Ref obtain st1 m where
        nested: "merge_dicts_store depth st sub v overwrite = Some (st1, m)" and
        rest: "merge_items_store depth (st1[result := AList.update key (Ref m) (st1 ! result)])
            result rest overwrite = Some (st', r)"
        by (auto split: option.splits)
      from 4(4)[OF Some Ref nested] have m: "m = length st" "m < length st1"
        and same1: "\<forall>a<length st. st1 ! a = st ! a" by simp_all
      from m res have res1: "result < length (st1[result := AList.update key (Ref m) (st1 ! result)])"
        by simp
      from 4(5)[OF Some Ref nested refl rest res1]
      have "r = result" "length st1 \<le> length st'"
        and same2: "\<forall>a<length st1. a \<noteq> result \<longrightarrow> st' ! a = st1 ! a"
        by simp_all
      with m same1 show ?thesis by auto
    qed
  qed
next
  case (5 depth st result key v rest overwrite)
  note res = \<open>result < length st\<close>
  note run = \<open>merge_items_store depth st result ((key, Val v) # rest) overwrite = Some (st', r)\<close>
  let ?st2 = "st[result := AList.update key (Val v) (st ! result)]"
  show ?case
  proof (cases "map_of (st ! result) key = None \<or> overwrite")
    case True
    with run have "merge_items_store depth ?st2 result rest overwrite = Some (st', r)" by auto
    from 5(1)[OF True this] res show ?thesis by simp
  next
    case False
    with run have "merge_items_store depth st result rest overwrite = Some (st', r)" by auto
    from 5(2)[OF False this res] show ?thesis .
  qed
qed

lemma repr_items_Cons:
  "repr_items X st (e # es) t \<longleftrightarrow>
     (\<exists>n t'. t = n # t' \<and> fst e = fst n \<and> repr_entry X st (snd e) (snd n) \<and>
        repr_items X st es t')"
proof (cases t)
  case Nil
  then show ?thesis by (cases e; cases "snd e") auto
next
  case (Cons n t')
  obtain k ev where e: "e = (k, ev)" by (cases e)
  obtain k' nv where n: "n = (k', nv)" by (cases n)
  show ?thesis unfolding Cons e n by (cases ev; cases nv) auto
qed

lemma repr_items_Nil: "repr_items X st [] t \<longleftrightarrow> t = []"
  by (cases t) auto

lemma repr_transfer:
  "repr X st a t \<Longrightarrow> length st \<le> length st' \<Longrightarrow>
     (\<forall>b<length st. b \<notin> X \<longrightarrow> st' ! b = st ! b) \<Longrightarrow>
     (\<forall>y\<in>Y. y \<in> X \<or> length st \<le> y) \<Longrightarrow> repr Y st' a t"
  "repr_items X st es t \<Longrightarrow> length st \<le> length st' \<Longrightarrow>
     (\<forall>b<length st. b \<notin> X \<longrightarrow> st' ! b = st ! b) \<Longrightarrow>
     (\<forall>y\<in>Y. y \<in> X \<or> length st \<le> y) \<Longrightarrow> repr_items Y st' es t"
proof (induction X st a t and X st es t rule: repr_repr_items.induct)
  case (1 X st a t)
  from 1(2) have a: "a \<notin> X" "a < length st" and items: "repr_items X st (st ! a) t"
    by simp_all
  from a 1(5) have "a \<notin> Y" by auto
  moreover from a 1(3) have "a < length st'" by simp
  moreover from a 1(4) have "st' ! a = st ! a" by simp
  moreover from 1(1)[OF items 1(3,4,5)] have "repr_items Y st' (st ! a) t" .
  ultimately show ?case by simp
next
  case (2 X st)
  show ?case by simp
next
  case (3 X st k x es k' y t)
  then show ?case by simp
next
  case (4 X st k b es k' s t)
  then show ?case by simp
qed simp_all

lemma repr_items_lookup:
  "repr_items X st es t \<Longrightarrow>
     (case map_of es k of
        None \<Rightarrow> map_of t k = None
      | Some (Val x) \<Rightarrow> map_of t k = Some (Leaf x)
      | Some (Ref b) \<Rightarrow> (\<exists>s. map_of t k = Some (Tree s) \<and> repr X st b s))"
proof (induction es arbitrary: t)
  case Nil
  then show ?case by (simp add: repr_items_Nil)
next
  case (Cons e es)
  from Cons.prems obtain n t' where t: "t = n # t'" and k: "fst e = fst n"
    and en: "repr_entry X st (snd e) (snd n)" and r: "repr_items X st es t'"
    unfolding repr_items_Cons by blast
  obtain ke ev where e: "e = (ke, ev)" by (cases e)
  obtain kn nv where n: "n = (kn, nv)" by (cases n)
  from k e n have kk: "kn = ke" by simp
  show ?case
  proof (cases "ke = k")
    case True
    with en e n kk t show ?thesis by (cases ev; cases nv) auto
  next
    case False
    with Cons.IH[OF r] e n kk t show ?thesis
      by (auto split: option.splits entry.splits)
  qed
qed

lemma repr_items_update:
  "repr_items X st es t \<Longrightarrow> repr_entry X st ev nv \<Longrightarrow>
     repr_items X st (AList.update k ev es) (AList.update k nv t)"
proof (induction es arbitrary: t)
  case Nil
  then show ?case by (simp add: repr_items_Nil repr_items_Cons)
next
  case (Cons e es)
  from Cons.prems(1) obtain n t' where t: "t = n # t'" and k: "fst e = fst n"
    and en: "repr_entry X st (snd e) (snd n)" and r: "repr_items X st es t'"
    unfolding repr_items_Cons by blast
  show ?case
  proof (cases "fst e = k")
    case True
    with k t r Cons.prems(2) show ?thesis by (simp add: repr_items_Cons)
  next
    case False
    with k t en Cons.IH[OF r Cons.prems(2)] show ?thesis by (simp add: repr_items_Cons)
  qed
qed

lemma repr_entry_transfer:
  "repr_entry X st e n \<Longrightarrow> length st \<le> length st' \<Longrightarrow>
     (\<forall>b<length st. b \<notin> X \<longrightarrow> st' ! b = st ! b) \<Longrightarrow>
     (\<forall>y\<in>Y. y \<in> X \<or> length st \<le> y) \<Longrightarrow> repr_entry Y st' e n"
  by (cases e; cases n) (auto simp del: repr.simps intro: repr_transfer(1))

lemma height_tail: "height (n # t) \<le> d \<Longrightarrow> height t \<le> d"
  by (cases n; cases "snd n") auto

lemma merge_items_store_refines:
  assumes D: "\<And>(st :: 'a store) d1 d2 t1 t2 X.
      \<lbrakk>\<forall>x\<in>X. x < length st; repr X st d1 t1; repr X st d2 t2; height t2 < depth\<rbrakk> \<Longrightarrow>
      \<exists>st'. merge_dicts_store depth st d1 d2 ow = Some (st', length st) \<and>
        length st < length st' \<and> (\<forall>a<length st. st' ! a = st ! a) \<and>
        repr X st' (length st) (merge_dicts t1 t2 ow)"
  shows "\<lbrakk>\<forall>x\<in>X. x < length (st :: 'a store); result < length st; result \<notin> X;
      repr_items (insert result X) st (st ! result) tres;
      repr_items (insert result X) st items t2; height t2 \<le> depth\<rbrakk> \<Longrightarrow>
     \<exists>st'. merge_items_store depth st result items ow = Some (st', result) \<and>
       length st \<le> length st' \<and> (\<forall>a<length st. a \<noteq> result \<longrightarrow> st' ! a = st ! a) \<and>
       repr_items (insert result X) st' (st' ! result) (merge_dicts tres t2 ow)"
proof (induction items arbitrary: st tres t2)
  case Nil
  then have "t2 = []" by (simp add: repr_items_Nil)
  with Nil show ?case by simp
next
  case (Cons e rest)
  let ?R = "insert result X"
  note bound = Cons.prems(1) and res = Cons.prems(2) and fresh = Cons.prems(3)
    and tres = Cons.prems(4)
  from Cons.prems(5) obtain n t2' where t2: "t2 = n # t2'" and k: "fst e = fst n"
    and en: "repr_entry ?R st (snd e) (snd n)" and rest: "repr_items ?R st rest t2'"
    unfolding repr_items_Cons by blast
  obtain key ev where e: "e = (key, ev)" by (cases e)
  with k obtain nv where n: "n = (key, nv)" by (cases n) auto
  from en e n have env: "repr_entry ?R st ev nv" by simp
  from Cons.prems(6) t2 have h': "height t2' \<le> depth" by (auto dest: height_tail)
  have cont: "\<exists>st'. merge_items_store depth
        (st1[result := AList.update key ev' (st1 ! result)]) result rest ow = Some (st', result) \<and>
      length st \<le> length st' \<and> (\<forall>a<length st. a \<noteq> result \<longrightarrow> st' ! a = st ! a) \<and>
      repr_items ?R st' (st' ! result) (merge_dicts (AList.update key nv' tres) t2' ow)"
    if len: "length st \<le> length st1" and same: "\<forall>b<length st. st1 ! b = st ! b"
      and ent: "repr_entry ?R st1 ev' nv'" for st1 ev' nv'
  proof -
    let ?st3 = "st1[result := AList.update key ev' (st1 ! result)]"
    have l3: "length st \<le> length ?st3" using len by simp
    have s3: "\<forall>b<length st. b \<notin> ?R \<longrightarrow> ?st3 ! b = st ! b" using same by simp
    have s13: "\<forall>b<length st1. b \<notin> ?R \<longrightarrow> ?st3 ! b = st1 ! b" by simp
    have idR: "\<forall>y\<in>?R. y \<in> ?R \<or> length st \<le> y" by simp
    have idR1: "\<forall>y\<in>?R. y \<in> ?R \<or> length st1 \<le> y" by simp
    have r3: "?st3 ! result = AList.update key ev' (st ! result)"
      using res len same by simp
    have "repr_items ?R ?st3 (st ! result) tres"
      by (rule repr_transfer(2)[OF tres l3 s3 idR])
    moreover have "repr_entry ?R ?st3 ev' nv'"
      by (rule repr_entry_transfer[OF ent _ s13 idR1]) simp
    ultimately have a: "repr_items ?R ?st3 (?st3 ! result) (AList.update key nv' tres)"
      unfolding r3 by (rule repr_items_update)
    have b: "repr_items ?R ?st3 rest t2'"
      by (rule repr_transfer(2)[OF rest l3 s3 idR])
    have c: "\<forall>x\<in>X. x < length ?st3" using bound len by auto
    have d: "result < length ?st3" using res len by simp
    from Cons.IH[OF c d fresh a b h'] obtain st' where
      run: "merge_items_store depth ?st3 result rest ow = Some (st', result)" and
      l: "length ?st3 \<le> length st'" and
      s: "\<forall>a<length ?st3. a \<noteq> result \<longrightarrow> st' ! a = ?st3 ! a" and
      r: "repr_items ?R st' (st' ! result) (merge_dicts (AList.update key nv' tres) t2' ow)"
      by blast
    from l len have "length st \<le> length st'" by simp
    moreover from s same len have "\<forall>a<length st. a \<noteq> result \<longrightarrow> st' ! a = st ! a" by simp
    ultimately show ?thesis using run r by blast
  qed
  have cont0: "\<exists>st'. merge_items_store depth
        (st[result := AList.update key ev (st ! result)]) result rest ow = Some (st', result) \<and>
      length st \<le> length st' \<and> (\<forall>a<length st. a \<noteq> result \<longrightarrow> st' ! a = st ! a) \<and>
      repr_items ?R st' (st' ! result) (merge_dicts (AList.update key nv tres) t2' ow)"
    by (rule cont[OF _ _ env]) simp_all
  have skip: "\<exists>st'. merge_items_store depth st result rest ow = Some (st', result) \<and>
      length st \<le> length st' \<and> (\<forall>a<length st. a \<noteq> result \<longrightarrow> st' ! a = st ! a) \<and>
      repr_items ?R st' (st' ! result) (merge_dicts tres t2' ow)"
    by (rule Cons.IH[OF bound res fresh tres rest h'])
  note look = repr_items_lookup[OF tres, of key]
  let ?upd = "st[result := AList.update key ev (st ! result)]"
  show ?case
  proof (cases ev)
    case (Val v)
    with env have nv: "nv = Leaf v" by (cases nv) auto
    show ?thesis
    proof (cases "map_of (st ! result) key = None \<or> ow")
      case True
      with look have pt: "map_of tres key = None \<or> ow" by (auto split: option.splits)
      have "merge_items_store depth st result (e # rest) ow =
          merge_items_store depth ?upd result rest ow"
        unfolding e Val using True by auto
      moreover have "merge_dicts tres t2 ow = merge_dicts (AList.update key nv tres) t2' ow"
        unfolding t2 n nv using pt by auto
      ultimately show ?thesis using cont0 by simp
    next
      case False
      with look have pf: "\<not> (map_of tres key = None \<or> ow)"
        by (auto split: option.splits entry.splits)
      have "merge_items_store depth st result (e # rest) ow =
          merge_items_store depth st result rest ow"
        unfolding e Val using False by auto
      moreover have "merge_dicts tres t2 ow = merge_dicts tres t2' ow"
        unfolding t2 n nv using pf by auto
      ultimately show ?thesis using skip by simp
    qed
  next
    case (Ref v)
    with env obtain s2 where nv: "nv = Tree s2" and v: "repr ?R st v s2"
      by (cases nv) (auto simp del: repr.simps)
    show ?thesis
    proof (cases "map_of (st ! result) key")
      case None
      with look have pn: "map_of tres key = None" by simp
      have "merge_items_store depth st result (e # rest) ow =
          merge_items_store depth ?upd result rest ow"
        unfolding e Ref using None by simp
      moreover have "merge_dicts tres t2 ow = merge_dicts (AList.update key nv tres) t2' ow"
        unfolding t2 n nv using pn by simp
      ultimately show ?thesis using cont0 by simp
    next
      case (Some cur)
      show ?thesis
      proof (cases cur)
        case (Val x)
        with Some look have p: "map_of tres key = Some (Leaf x)" by simp
        show ?thesis
        proof (cases ow)
          case True
          have "merge_items_store depth st result (e # rest) ow =
              merge_items_store depth ?upd result rest ow"
            unfolding e Ref using Some Val True by simp
          moreover have "merge_dicts tres t2 ow = merge_dicts (AList.update key nv tres) t2' ow"
            unfolding t2 n nv using p True by simp
          ultimately show ?thesis using cont0 by simp
        next
          case False
          have "merge_items_store depth st result (e # rest) ow =
              merge_items_store depth st result rest ow"
            unfolding e Ref using Some Val False by simp
          moreover have "merge_dicts tres t2 ow = merge_dicts tres t2' ow"
            unfolding t2 n nv using p False by simp
          ultimately show ?thesis using skip by simp
        qed
      next
        case sub: (Ref sub)
        with Some look obtain s1 where p: "map_of tres key = Some (Tree s1)"
          and s1: "repr ?R st sub s1" by (auto simp del: repr.simps)
        have bR: "\<forall>x\<in>?R. x < length st" using bound res by simp
        from Cons.prems(6) have "height s2 < depth" unfolding t2 n nv by simp
        from D[OF bR s1 v this] obtain st1 where
          nested: "merge_dicts_store depth st sub v ow = Some (st1, length st)" and
          l1: "length st < length st1" and same1: "\<forall>a<length st. st1 ! a = st ! a" and
          m: "repr ?R st1 (length st) (merge_dicts s1 s2 ow)" by blast
        have ent: "repr_entry ?R st1 (Ref (length st)) (Tree (merge_dicts s1 s2 ow))"
          using m by (simp del: repr.simps)
        from l1 have l1': "length st \<le> length st1" by simp
        have "merge_items_store depth st result (e # rest) ow =
            merge_items_store depth
              (st1[result := AList.update key (Ref (length st)) (st1 ! result)]) result rest ow"
          unfolding e Ref using Some sub nested by simp
        moreover have "merge_dicts tres t2 ow =
            merge_dicts (AList.update key (Tree (merge_dicts s1 s2 ow)) tres) t2' ow"
          unfolding t2 n nv using p by simp
        ultimately show ?thesis using cont[OF l1' same1 ent] by simp
      qed
    qed
  qed
qed

lemma merge_dicts_store_refines:
  "\<lbrakk>\<forall>x\<in>X. x < length st; repr X st d1 t1; repr X st d2 t2; height t2 < depth\<rbrakk> \<Longrightarrow>
      \<exists>st'. merge_dicts_store depth st d1 d2 ow = Some (st', length st) \<and>
        length st < length st' \<and> (\<forall>a<length st. st' ! a = st ! a) \<and>
        repr X st' (length st) (merge_dicts t1 t2 ow)"
proof (induction depth arbitrary: X st d1 d2 t1 t2)
  case 0
  then show ?case by simp
next
  case (Suc depth)
  let ?r = "length st"
  let ?R = "insert ?r X"
  let ?st0 = "st @ [st ! d1]"
  from Suc.prems(2,3) have in1: "d1 < length st" and in2: "d2 < length st"
    and i1: "repr_items X st (st ! d1) t1" and i2: "repr_items X st (st ! d2) t2"
    by simp_all
  have l0: "length st \<le> length ?st0" by simp
  have s0: "\<forall>b<length st. b \<notin> X \<longrightarrow> ?st0 ! b = st ! b" by (simp add: nth_append)
  have yR: "\<forall>y\<in>?R. y \<in> X \<or> length st \<le> y" by simp
  have a: "repr_items ?R ?st0 (?st0 ! ?r) t1"
    using repr_transfer(2)[OF i1 l0 s0 yR] by simp
  have b: "repr_items ?R ?st0 (st ! d2) t2"
    by (rule repr_transfer(2)[OF i2 l0 s0 yR])
  have c: "\<forall>x\<in>X. x < length ?st0" using Suc.prems(1) by auto
  have d: "?r < length ?st0" by simp
  have f: "?r \<notin> X" using Suc.prems(1) by auto
  from Suc.prems(4) have h: "height t2 \<le> depth" by simp
  from merge_items_store_refines[of depth ow, OF Suc.IH c d f a b h]
  obtain st' where run: "merge_items_store depth ?st0 ?r (st ! d2) ow = Some (st', ?r)"
    and l: "length ?st0 \<le> length st'"
    and s: "\<forall>a<length ?st0. a \<noteq> ?r \<longrightarrow> st' ! a = ?st0 ! a"
    and r: "repr_items ?R st' (st' ! ?r) (merge_dicts t1 t2 ow)" by blast
  from l have lt: "length st < length st'" by simp
  from s have same: "\<forall>a<length st. st' ! a = st ! a" by (simp add: nth_append)
  have "repr_items X st' (st' ! ?r) (merge_dicts t1 t2 ow)"
    by (rule repr_transfer(2)[OF r]) simp_all
  with f lt have "repr X st' ?r (merge_dicts t1 t2 ow)" by simp
  with run in1 in2 lt same show ?case by simp
qed

text \<open>
  C6. Whenever \<open>merge_dicts\<close> returns, its result is a new object and every object
  that existed before the call, so both arguments and all their nested dictionaries, is
  as it was. And it does return: when the two arguments are the trees \<open>t1\<close> and
  \<open>t2\<close> and the recursion may go deeper than \<open>t2\<close> is nested, the result is the
  merge of \<open>t1\<close> and \<open>t2\<close>, and the arguments still are \<open>t1\<close> and \<open>t2\<close>.
\<close>

theorem merge_dicts_store_frame:
  "(merge_dicts_store depth st dict1 dict2 overwrite = Some (st', result) \<longrightarrow>
      result = length st \<and> result < length st' \<and> take (length st) st' = st) \<and>
   (repr {} st dict1 t1 \<and> repr {} st dict2 t2 \<and> height t2 < depth \<longrightarrow>
      (\<exists>st' result. merge_dicts_store depth st dict1 dict2 overwrite = Some (st', result) \<and>
         repr {} st' result (merge_dicts t1 t2 overwrite) \<and>
         repr {} st' dict1 t1 \<and> repr {} st' dict2 t2))"
proof (rule conjI; rule impI)
  assume run: "merge_dicts_store depth st dict1 dict2 overwrite = Some (st', result)"
  from merge_store_frame(1)[OF run] have r: "result = length st" "result < length st'"
    and same: "\<forall>a<length st. st' ! a = st ! a" by simp_all
  have "take (length st) st' = st"
  proof (rule nth_equalityI)
    show "length (take (length st) st') = length st" using r by simp
  next
    fix i assume "i < length (take (length st) st')"
    then show "take (length st) st' ! i = st ! i" using same by simp
  qed
  with r show "result = length st \<and> result < length st' \<and> take (length st) st' = st" by simp
next
  assume h: "repr {} st dict1 t1 \<and> repr {} st dict2 t2 \<and> height t2 < depth"
  then have r1: "repr {} st dict1 t1" and r2: "repr {} st dict2 t2" and d: "height t2 < depth"
    by simp_all
  have e: "\<forall>x\<in>{}. x < length st" by simp
  from merge_dicts_store_refines[OF e r1 r2 d, of overwrite] obtain st1 where
    run: "merge_dicts_store depth st dict1 dict2 overwrite = Some (st1, length st)" and
    l: "length st < length st1" and same: "\<forall>a<length st. st1 ! a = st ! a" and
    m: "repr {} st1 (length st) (merge_dicts t1 t2 overwrite)" by blast
  from l have l': "length st \<le> length st1" by simp
  from same have s': "\<forall>b<length st. b \<notin> {} \<longrightarrow> st1 ! b = st ! b" by simp
  have y: "\<forall>y\<in>{}. y \<in> {} \<or> length st \<le> y" by simp
  have "repr {} st1 dict1 t1" by (rule repr_transfer(1)[OF r1 l' s' y])
  moreover have "repr {} st1 dict2 t2" by (rule repr_transfer(1)[OF r2 l' s' y])
  ultimately show "\<exists>st' result. merge_dicts_store depth st dict1 dict2 overwrite = Some (st', result) \<and>
         repr {} st' result (merge_dicts t1 t2 overwrite) \<and>
         repr {} st' dict1 t1 \<and> repr {} st' dict2 t2"
    using run m by blast
qed

theorem merge_dicts_store_frame_witness:
  "merge_dicts_store 2
     [[(''a'', Val (1::int)), (''b'', Ref 1)], [(''c'', Val 2)],
      [(''b'', Ref 3), (''e'', Val 4)], [(''d'', Val 3)]] 0 2 True =
     Some ([[(''a'', Val 1), (''b'', Ref 1)], [(''c'', Val 2)],
            [(''b'', Ref 3), (''e'', Val 4)], [(''d'', Val 3)],
            [(''a'', Val 1), (''b'', Ref 5), (''e'', Val 4)],
            [(''c'', Val 2), (''d'', Val 3)]], 4) \<and>
   take 4 [[(''a'', Val (1::int)), (''b'', Ref 1)], [(''c'', Val 2)],
            [(''b'', Ref 3), (''e'', Val 4)], [(''d'', Val 3)],
            [(''a'', Val 1), (''b'', Ref 5), (''e'', Val 4)],
            [(''c'', Val 2), (''d'', Val 3)]] =
     [[(''a'', Val 1), (''b'', Ref 1)], [(''c'', Val 2)],
      [(''b'', Ref 3), (''e'', Val 4)], [(''d'', Val 3)]] \<and>
   repr {} [[(''a'', Val (1::int)), (''b'', Ref 1)], [(''c'', Val 2)],
      [(''b'', Ref 3), (''e'', Val 4)], [(''d'', Val 3)]] 0
     [(''a'', Leaf 1), (''b'', Tree [(''c'', Leaf 2)])] \<and>
   repr {} [[(''a'', Val (1::int)), (''b'', Ref 1)], [(''c'', Val 2)],
      [(''b'', Ref 3), (''e'', Val 4)], [(''d'', Val 3)]] 2
     [(''b'', Tree [(''d'', Leaf 3)]), (''e'', Leaf 4)] \<and>
   height [(''b'', Tree [(''d'', Leaf (3::int))]), (''e'', Leaf 4)] < 2 \<and>
   (\<exists>st' result.
      merge_dicts_store 2
        [[(''a'', Val (1::int)), (''b'', Ref 1)], [(''c'', Val 2)],
         [(''b'', Ref 3), (''e'', Val 4)], [(''d'', Val 3)]] 0 2 True = Some (st', result) \<and>
      repr {} st' result
        [(''a'', Leaf 1), (''b'', Tree [(''c'', Leaf 2), (''d'', Leaf 3)]), (''e'', Leaf 4)])"
proof -
  let ?st = "[[(''a'', Val (1::int)), (''b'', Ref 1)], [(''c'', Val 2)],
      [(''b'', Ref 3), (''e'', Val 4)], [(''d'', Val 3)]]"
  let ?st' = "[[(''a'', Val (1::int)), (''b'', Ref 1)], [(''c'', Val 2)],
            [(''b'', Ref 3), (''e'', Val 4)], [(''d'', Val 3)],
            [(''a'', Val 1), (''b'', Ref 5), (''e'', Val 4)],
            [(''c'', Val 2), (''d'', Val 3)]]"
  let ?t1 = "[(''a'', Leaf (1::int)), (''b'', Tree [(''c'', Leaf 2)])]"
  let ?t2 = "[(''b'', Tree [(''d'', Leaf (3::int))]), (''e'', Leaf 4)]"
  have run: "merge_dicts_store 2 ?st 0 2 True = Some (?st', 4)" by code_simp
  have r1: "repr {} ?st 0 ?t1" by code_simp
  have r2: "repr {} ?st 2 ?t2" by code_simp
  have h: "height ?t2 < 2" by code_simp
  have m: "merge_dicts ?t1 ?t2 True =
      [(''a'', Leaf 1), (''b'', Tree [(''c'', Leaf 2), (''d'', Leaf 3)]), (''e'', Leaf 4)]"
    by code_simp
  note t = merge_dicts_store_frame[of 2 ?st 0 2 True ?st' 4 ?t1 ?t2]
  from t run have "take (length ?st) ?st' = ?st" by blast
  then have tk: "take 4 ?st' = ?st" by simp
  from t r1 r2 h have "\<exists>st' result. merge_dicts_store 2 ?st 0 2 True = Some (st', result) \<and>
      repr {} st' result (merge_dicts ?t1 ?t2 True)" by blast
  then have ex: "\<exists>st' result. merge_dicts_store 2 ?st 0 2 True = Some (st', result) \<and>
      repr {} st' result
        [(''a'', Leaf 1), (''b'', Tree [(''c'', Leaf 2), (''d'', Leaf 3)]), (''e'', Leaf 4)]"
    unfolding m .
  from run tk r1 r2 h ex show ?thesis by blast
qed

end
